theory Spec2Isabelle
  imports Main
begin

section \<open>Scene management: data model\<close>

text \<open>
  A shallow embedding of \<^verbatim>\<open>src/lib/sceneManagement.ts\<close>. JavaScript objects that
  the code compares or keys by identity (Key objects, registries, widget and projector
  instances, DOM elements) are represented by a reference, a natural number handed out
  by an allocator. Mutation of the shared render state is explicit state passing; the
  calls made on the external collaborators (the registry, the widgets, the projector)
  are recorded in a trace.
\<close>

type_synonym ref = nat
type_synonym Identifier = string
type_synonym Element = ref
type_synonym WidgetLike = ref
type_synonym Projector = ref

text \<open>\<^verbatim>\<open>interface SceneWidget { widget: Identifier }\<close> and
  \<^verbatim>\<open>type SceneElement = SceneProjector | SceneWidget\<close>, where a
  \<^verbatim>\<open>SceneProjector\<close> carries \<^verbatim>\<open>projector: true\<close> and the list \<^verbatim>\<open>append\<close>.\<close>

datatype SceneWidget = SceneWidget (widget_id: Identifier)

datatype SceneElement =
    SceneProjector (append_of: "SceneWidget list")
  | SceneWidgetElement SceneWidget
  where "append_of (SceneWidgetElement sw) = []"

fun isSceneProjector :: "SceneElement \<Rightarrow> bool" where
  "isSceneProjector (SceneProjector append') = True"
| "isSceneProjector (SceneWidgetElement w) = False"

text \<open>\<^verbatim>\<open>interface Key { value: string }\<close>: an object, so it also has an identity.\<close>

record Key =
  key_ref :: ref
  key_value :: string

subsection \<open>Counter\<close>

definition digit :: "nat \<Rightarrow> char" where
  "digit n = ''0123456789'' ! n"

text \<open>The decimal digits of a number, as a template literal prints \<^verbatim>\<open>${this.count}\<close>.\<close>

function decimal :: "nat \<Rightarrow> string" where
  "decimal n = (if n < 10 then [digit n] else decimal (n div 10) @ [digit (n mod 10)])"
  by pat_completeness auto
termination
  by (relation "measure id") auto

declare decimal.simps [simp del]

record Counter =
  prefix :: string
  count :: nat

definition new_Counter :: "string \<Rightarrow> Counter" where
  "new_Counter p = \<lparr>prefix = p, count = 0\<rparr>"

text \<open>\<^verbatim>\<open>incr() { return `${this.prefix}.${this.count++}`; }\<close>: the identifier and the
  counter after the increment.\<close>

definition incr :: "Counter \<Rightarrow> string \<times> Counter" where
  "incr c = (prefix c @ ''.'' @ decimal (count c), c\<lparr>count := count c + 1\<rparr>)"

definition level :: "Counter \<Rightarrow> Counter" where
  "level c = new_Counter (prefix c @ ''.'' @ decimal (count c))"

subsection \<open>Insertion-ordered maps\<close>

text \<open>An ES6 \<^verbatim>\<open>Map\<close> with string keys: an association list in insertion order, which is
  the order \<^verbatim>\<open>forEach\<close> visits. \<^verbatim>\<open>set\<close> on a present key keeps its position.\<close>

fun Map_get :: "(string \<times> 'v) list \<Rightarrow> string \<Rightarrow> 'v option" where
  "Map_get [] k = None"
| "Map_get ((k', v) # m) k = (if k' = k then Some v else Map_get m k)"

definition Map_has :: "(string \<times> 'v) list \<Rightarrow> string \<Rightarrow> bool" where
  "Map_has m k = (Map_get m k \<noteq> None)"

fun Map_set :: "string \<Rightarrow> 'v \<Rightarrow> (string \<times> 'v) list \<Rightarrow> (string \<times> 'v) list" where
  "Map_set k v [] = [(k, v)]"
| "Map_set k v ((k', v') # m) = (if k' = k then (k, v) # m else (k', v') # Map_set k v m)"

fun Map_delete :: "string \<Rightarrow> (string \<times> 'v) list \<Rightarrow> (string \<times> 'v) list" where
  "Map_delete k [] = []"
| "Map_delete k ((k', v') # m) = (if k' = k then Map_delete k m else (k', v') # Map_delete k m)"

subsection \<open>Render state\<close>

text \<open>The two closures the code stores as handles. The projector's handle (lines 118-122)
  captures \<^verbatim>\<open>projectorKey\<close>; a widget's handle (lines 156-161) captures \<^verbatim>\<open>widget\<close> and
  \<^verbatim>\<open>key\<close>.\<close>

datatype Handle = ProjectorHandle Key | WidgetHandle WidgetLike Key

text \<open>\<^verbatim>\<open>interface RenderState\<close>. A \<^verbatim>\<open>WeakMap\<close> keyed by Key objects is a map from the
  key's reference.\<close>

record RenderState =
  root :: Element
  children :: "ref \<rightharpoonup> Key list"
  handles :: "ref \<rightharpoonup> Handle"
  projectorKeys :: "(string \<times> Key) list"
  projectors :: "ref \<rightharpoonup> Projector"
  widgetKeys :: "(Identifier \<times> Key) list"
  widgets :: "ref \<rightharpoonup> WidgetLike"

datatype error = Error string | TypeError | Unsettled

text \<open>Calls on the external collaborators: the registry's \<^verbatim>\<open>getWidget\<close>, a widget's
  \<^verbatim>\<open>destroy\<close>, and \<^verbatim>\<open>createProjector\<close>, \<^verbatim>\<open>attach\<close> and \<^verbatim>\<open>destroy\<close> of a projector.\<close>

datatype call =
    GetWidget ref Identifier
  | WidgetDestroy WidgetLike
  | CreateProjector Projector Element
  | Attach Projector
  | ProjectorDestroy Projector

text \<open>A registry is an object with a \<^verbatim>\<open>getWidget\<close> method returning a promise. Its
  behaviour is not part of this code: the promise's outcome (fulfilled with a widget, or
  rejected) is taken as a function of the identifiers requested of this registry so far
  and of the identifier requested now. Every promise of a registry is taken to settle: a
  render waiting for one that never does would never settle either.\<close>

record ReadOnlyRegistry =
  registry_ref :: ref
  getWidget :: "Identifier list \<Rightarrow> Identifier \<Rightarrow> error + WidgetLike"

text \<open>Everything global: the module's \<^verbatim>\<open>renderState\<close> weak map (keyed by the registry
  object), the allocator of object references, the live \<^verbatim>\<open>children\<close> property of each
  projector, the trace of external calls, and the resolutions of a rejected render that
  have not settled yet (registry, key and outcome of each).\<close>

record World =
  renderState :: "ref \<rightharpoonup> RenderState"
  fresh :: ref
  projector_children :: "Projector \<rightharpoonup> WidgetLike list"
  trace :: "call list"
  outstanding :: "(ref \<times> Key \<times> (error + WidgetLike)) list"

type_synonym sys = "RenderState \<times> World"

definition new_Key :: "string \<Rightarrow> World \<Rightarrow> Key \<times> World" where
  "new_Key v w = (\<lparr>key_ref = fresh w, key_value = v\<rparr>, w\<lparr>fresh := Suc (fresh w)\<rparr>)"

fun requests :: "ref \<Rightarrow> call list \<Rightarrow> Identifier list" where
  "requests r [] = []"
| "requests r (GetWidget r' v # cs) = (if r' = r then v # requests r cs else requests r cs)"
| "requests r (c # cs) = requests r cs"

text \<open>\<^verbatim>\<open>createProjector({ root })\<close> of dojo-widgets: a new projector object, whose
  \<^verbatim>\<open>children\<close> nobody has assigned yet.\<close>

definition createProjector :: "Element \<Rightarrow> World \<Rightarrow> Projector \<times> World" where
  "createProjector r w = (fresh w, w\<lparr>fresh := Suc (fresh w), trace := trace w @ [CreateProjector (fresh w) r]\<rparr>)"

definition attach :: "Projector \<Rightarrow> World \<Rightarrow> World" where
  "attach p w = w\<lparr>trace := trace w @ [Attach p]\<rparr>"

section \<open>Handles\<close>

text \<open>Invoking a handle's \<^verbatim>\<open>destroy()\<close>.\<close>

fun destroy :: "Handle \<Rightarrow> sys \<Rightarrow> sys" where
  "destroy (ProjectorHandle projectorKey) (st, w) =
     (st\<lparr>projectorKeys := Map_delete (key_value projectorKey) (projectorKeys st)\<rparr>, w)"
| "destroy (WidgetHandle wd key) (st, w) =
     (st\<lparr>widgetKeys := Map_delete (key_value key) (widgetKeys st)\<rparr>,
      w\<lparr>trace := trace w @ [WidgetDestroy wd]\<rparr>)"

section \<open>updateProjectorChildren\<close>

text \<open>\<^verbatim>\<open>interface Child { key: Key; widget: WidgetLike }\<close>\<close>

record Child =
  key :: Key
  widget :: WidgetLike

text \<open>An element of \<^verbatim>\<open>children: (Promise<Child> | Child)[]\<close>: a child that was cached, or
  the promise \<^verbatim>\<open>registry.getWidget(value).then(...)\<close> with the key its callback captured
  and the outcome the registry's promise will settle with.\<close>

datatype entry = Ready Child | Promised Key "error + WidgetLike"

text \<open>The callback of \<^verbatim>\<open>append.map\<close> (lines 143-164) for one requested widget: the
  element of \<^verbatim>\<open>children\<close> it returns and the state it leaves. A cached widget gives a
  child at once; otherwise the registry is called and the element is a promise.\<close>

definition resolve_child :: "ReadOnlyRegistry \<Rightarrow> Identifier \<Rightarrow> sys \<Rightarrow> entry \<times> sys" where
  "resolve_child registry v s =
     (case s of (st, w) \<Rightarrow>
       (let (key, w1) = (case Map_get (widgetKeys st) v of Some k \<Rightarrow> (k, w) | None \<Rightarrow> new_Key v w);
            st1 = (if \<not> Map_has (widgetKeys st) v
                   then st\<lparr>widgetKeys := Map_set v key (widgetKeys st)\<rparr> else st)
        in case widgets st1 (key_ref key) of
             Some wd \<Rightarrow> (Ready \<lparr>key = key, widget = wd\<rparr>, (st1, w1))
           | None \<Rightarrow>
               (Promised key (getWidget registry (requests (registry_ref registry) (trace w1)) v),
                (st1, w1\<lparr>trace := trace w1 @ [GetWidget (registry_ref registry) v]\<rparr>))))"

text \<open>\<^verbatim>\<open>append.map(...)\<close>: the callback runs for each requested widget in order. Nothing
  asynchronous runs in between: a promise's \<^verbatim>\<open>then\<close> callback is never run before the
  synchronous code that created it has finished.\<close>

fun resolve_children :: "ReadOnlyRegistry \<Rightarrow> SceneWidget list \<Rightarrow> sys \<Rightarrow> entry list \<times> sys" where
  "resolve_children registry [] s = ([], s)"
| "resolve_children registry (SceneWidget v # append') s =
     (case resolve_child registry v s of
        (e, s1) \<Rightarrow> (case resolve_children registry append' s1 of (es, s2) \<Rightarrow> (e # es, s2)))"

text \<open>The \<^verbatim>\<open>then\<close> callback of a fulfilled \<^verbatim>\<open>getWidget\<close> promise (lines 154-163).\<close>

definition resolved :: "Key \<Rightarrow> WidgetLike \<Rightarrow> RenderState \<Rightarrow> RenderState" where
  "resolved k wd st =
     st\<lparr>widgets := (widgets st)(key_ref k \<mapsto> wd),
        handles := (handles st)(key_ref k \<mapsto> WidgetHandle wd k)\<rparr>"

text \<open>The values \<^verbatim>\<open>Promise.all\<close> holds before any promise has settled: the elements that
  are no promises.\<close>

fun ready :: "entry \<Rightarrow> Child option" where
  "ready (Ready c) = Some c"
| "ready (Promised k outcome) = None"

text \<open>The promises settle one at a time, in the order given by a list of positions. A
  position that is out of range, holds no promise or has settled already is passed over.
  A fulfilled promise runs its callback and \<^verbatim>\<open>Promise.all\<close> stores the child at the
  promise's position; the first rejected promise rejects \<^verbatim>\<open>Promise.all\<close>, and the
  result is the error, the rejected position, and the state and values at that moment.\<close>

fun settle :: "entry list \<Rightarrow> nat list \<Rightarrow> RenderState \<times> Child option list
    \<Rightarrow> (error \<times> nat \<times> RenderState \<times> Child option list) + (RenderState \<times> Child option list)" where
  "settle es [] (st, vs) = Inr (st, vs)"
| "settle es (i # order) (st, vs) =
     (if i < length es \<and> vs ! i = None then
        (case es ! i of
           Ready c \<Rightarrow> settle es order (st, vs)
         | Promised k (Inr wd) \<Rightarrow>
             settle es order (resolved k wd st, vs[i := Some \<lparr>key = k, widget = wd\<rparr>])
         | Promised k (Inl e) \<Rightarrow> Inl (e, i, st, vs))
      else settle es order (st, vs))"

text \<open>The promises still pending when \<^verbatim>\<open>Promise.all\<close> rejected at position \<^verbatim>\<open>i\<close>.\<close>

fun unsettled :: "ref \<Rightarrow> nat \<Rightarrow> nat \<Rightarrow> entry list \<Rightarrow> Child option list
    \<Rightarrow> (ref \<times> Key \<times> (error + WidgetLike)) list" where
  "unsettled r i j [] vs = []"
| "unsettled r i j (Ready c # es) vs = unsettled r i (Suc j) es (tl vs)"
| "unsettled r i j (Promised k outcome # es) vs =
     (if j \<noteq> i \<and> hd vs = None then (r, k, outcome) # unsettled r i (Suc j) es (tl vs)
      else unsettled r i (Suc j) es (tl vs))"

text \<open>\<^verbatim>\<open>includes(newKeys, key)\<close>: Key objects are compared by identity.\<close>

definition includes_key :: "Key list \<Rightarrow> Key \<Rightarrow> bool" where
  "includes_key ks k = (key_ref k \<in> set (map key_ref ks))"

text \<open>\<^verbatim>\<open>state.handles.get(key).destroy()\<close>: on a key without a handle this is a TypeError.\<close>

definition invoke_handle :: "Key \<Rightarrow> sys \<Rightarrow> (error + unit) \<times> sys" where
  "invoke_handle k s =
     (case handles (fst s) (key_ref k) of
        None \<Rightarrow> (Inl TypeError, s)
      | Some h \<Rightarrow> (Inr (), destroy h s))"

text \<open>The loop of lines 170-180; an exception leaves it.\<close>

fun destroy_removed :: "Key list \<Rightarrow> Key list \<Rightarrow> sys \<Rightarrow> (error + unit) \<times> sys" where
  "destroy_removed newKeys [] s = (Inr (), s)"
| "destroy_removed newKeys (k # previousKeys) s =
     (if \<not> includes_key newKeys k then
        (case invoke_handle k s of
           (Inl e, s1) \<Rightarrow> (Inl e, s1)
         | (Inr u, s1) \<Rightarrow> destroy_removed newKeys previousKeys s1)
      else destroy_removed newKeys previousKeys s)"

text \<open>The \<^verbatim>\<open>then\<close> callback of \<^verbatim>\<open>Promise.all(children)\<close> (lines 167-183). Iterating
  \<^verbatim>\<open>previousKeys\<close> when the projector's key has no entry in \<^verbatim>\<open>state.children\<close> is a
  TypeError.\<close>

definition all_resolved :: "Key \<Rightarrow> Projector \<Rightarrow> Child list \<Rightarrow> sys \<Rightarrow> (error + unit) \<times> sys" where
  "all_resolved projectorKey projector cs s =
     (let newKeys = map key cs
      in case children (fst s) (key_ref projectorKey) of
           None \<Rightarrow> (Inl TypeError, s)
         | Some previousKeys \<Rightarrow>
             (case destroy_removed newKeys previousKeys s of
                (Inl e, s1) \<Rightarrow> (Inl e, s1)
              | (Inr u, (st1, w1)) \<Rightarrow>
                  (Inr (), (st1, w1\<lparr>projector_children :=
                     (projector_children w1)(projector \<mapsto> map widget cs)\<rparr>))))"

text \<open>\<^verbatim>\<open>updateProjectorChildren\<close>. The extra argument \<^verbatim>\<open>order\<close> is the order in which
  the registry's promises settle; every promise settles eventually, so the positions
  that \<^verbatim>\<open>order\<close> leaves out settle after it, from left to right. Then no position is
  left without a value (lemma \<^verbatim>\<open>settled_values_complete\<close>), and the error \<^verbatim>\<open>Unsettled\<close> never
  arises.\<close>

definition updateProjectorChildren ::
    "ReadOnlyRegistry \<Rightarrow> Counter \<Rightarrow> Key \<Rightarrow> Projector \<Rightarrow> SceneWidget list \<Rightarrow> nat list \<Rightarrow> sys
     \<Rightarrow> (error + unit) \<times> sys" where
  "updateProjectorChildren registry counter projectorKey projector append' order s =
     (case resolve_children registry append' s of
        (es, (st1, w1)) \<Rightarrow>
          (case settle es (order @ [0..<length es]) (st1, map ready es) of
             Inl (e, i, st2, vs) \<Rightarrow>
               (Inl e, (st2, w1\<lparr>outstanding :=
                  outstanding w1 @ unsettled (registry_ref registry) i 0 es vs\<rparr>))
           | Inr (st2, vs) \<Rightarrow>
               (case those vs of
                  None \<Rightarrow> (Inl Unsettled, (st2, w1))
                | Some cs \<Rightarrow> all_resolved projectorKey projector cs (st2, w1))))"

section \<open>update and render\<close>

text \<open>The first part of \<^verbatim>\<open>update\<close> (lines 107-123): the key and the projector of this
  position of the tree, created and recorded when they are new, and the counter after
  \<^verbatim>\<open>incr\<close>.\<close>

definition projector_for :: "Counter \<Rightarrow> sys \<Rightarrow> (Key \<times> Projector \<times> Counter) \<times> sys" where
  "projector_for counter s =
     (case s of (st, w) \<Rightarrow>
       (let (projectorId, counter1) = incr counter;
            (projectorKey, w1) = (case Map_get (projectorKeys st) projectorId of
                                    Some k \<Rightarrow> (k, w) | None \<Rightarrow> new_Key projectorId w);
            st1 = (if \<not> Map_has (projectorKeys st) projectorId
                   then st\<lparr>projectorKeys := Map_set projectorId projectorKey (projectorKeys st)\<rparr>
                   else st);
            (projector, w2) = (case projectors st1 (key_ref projectorKey) of
                                 Some p \<Rightarrow> (p, w1) | None \<Rightarrow> createProjector (root st1) w1);
            st2 = (if projectors st1 (key_ref projectorKey) = None
                   then st1\<lparr>projectors := (projectors st1)(key_ref projectorKey \<mapsto> projector),
                            children := (children st1)(key_ref projectorKey \<mapsto> []),
                            handles := (handles st1)(key_ref projectorKey \<mapsto> ProjectorHandle projectorKey)\<rparr>
                   else st1)
        in ((projectorKey, projector, counter1), (st2, w2))))"

text \<open>\<^verbatim>\<open>update\<close>: the rest (lines 125-128) reconciles the children and then attaches the
  projector.\<close>

definition update ::
    "ReadOnlyRegistry \<Rightarrow> Counter \<Rightarrow> SceneElement \<Rightarrow> nat list \<Rightarrow> sys \<Rightarrow> (error + unit) \<times> sys" where
  "update registry counter tree order s =
     (case projector_for counter s of
        ((projectorKey, projector, counter1), s2) \<Rightarrow>
          (case updateProjectorChildren registry (level counter1) projectorKey projector
                  (append_of tree) order s2 of
             (Inl e, s3) \<Rightarrow> (Inl e, s3)
           | (Inr u, (st3, w3)) \<Rightarrow> (Inr (), (st3, attach projector w3))))"

text \<open>The handle \<^verbatim>\<open>render\<close> resolves with: a closure over the registry's render state.\<close>

datatype RenderHandle = RenderHandle ref

text \<open>\<^verbatim>\<open>Map.prototype.forEach\<close> with the callback of lines 86-90 and 91-95: the entries are
  visited in insertion order, and an entry deleted before its turn is not visited. The
  first argument selects the map that is iterated.\<close>

fun forEach_destroy :: "(RenderState \<Rightarrow> (string \<times> Key) list) \<Rightarrow> (string \<times> Key) list \<Rightarrow> sys \<Rightarrow> sys" where
  "forEach_destroy m [] s = s"
| "forEach_destroy m ((name, k) # rest) s =
     forEach_destroy m rest
       (if (name, k) \<in> set (m (fst s)) \<and> handles (fst s) (key_ref k) \<noteq> None
        then snd (invoke_handle k s) else s)"

definition destroy_RenderHandle :: "RenderHandle \<Rightarrow> World \<Rightarrow> World" where
  "destroy_RenderHandle h w =
     (case h of RenderHandle r \<Rightarrow>
       (case renderState w r of
          None \<Rightarrow> w
        | Some st \<Rightarrow>
            (let s1 = forEach_destroy projectorKeys (projectorKeys st) (st, w);
                 s2 = forEach_destroy widgetKeys (widgetKeys (fst s1)) s1
             in (snd s2)\<lparr>renderState := (renderState (snd s2))(r \<mapsto> fst s2)\<rparr>)))"

definition new_RenderState :: "Element \<Rightarrow> RenderState" where
  "new_RenderState r =
     \<lparr>root = r, children = Map.empty, handles = Map.empty, projectorKeys = [],
      projectors = Map.empty, widgetKeys = [], widgets = Map.empty\<rparr>"

text \<open>\<^verbatim>\<open>render\<close>: the settled value of the promise it returns (\<^verbatim>\<open>Inl\<close> when rejected) and
  the world at that moment. The state object is registered in \<^verbatim>\<open>renderState\<close> before
  \<^verbatim>\<open>update\<close> runs and is mutated in place; here it is written back on every way out.\<close>

definition render ::
    "ReadOnlyRegistry \<Rightarrow> Element \<Rightarrow> SceneElement \<Rightarrow> nat list \<Rightarrow> World \<Rightarrow> (error + RenderHandle) \<times> World" where
  "render registry r tree order w =
     (if \<not> isSceneProjector tree then
        (Inl (Error ''Tree must start with a SceneProjector for now, sorry''), w)
      else
        (let state = (case renderState w (registry_ref registry) of
                        Some st \<Rightarrow> st | None \<Rightarrow> new_RenderState r)
         in case update registry (new_Counter []) tree order (state, w) of
              (Inl e, (st1, w1)) \<Rightarrow>
                (Inl e, w1\<lparr>renderState := (renderState w1)(registry_ref registry \<mapsto> st1)\<rparr>)
            | (Inr u, (st1, w1)) \<Rightarrow>
                (Inr (RenderHandle (registry_ref registry)),
                 w1\<lparr>renderState := (renderState w1)(registry_ref registry \<mapsto> st1)\<rparr>)))"

text \<open>A resolution left pending by a rejected render settles later: its callback runs on
  the state of the registry it belongs to.\<close>

definition settle_outstanding :: "nat \<Rightarrow> World \<Rightarrow> World" where
  "settle_outstanding n w =
     (if n < length (outstanding w) then
        (case outstanding w ! n of
           (r, k, outcome) \<Rightarrow>
             (let w1 = w\<lparr>outstanding := take n (outstanding w) @ drop (Suc n) (outstanding w)\<rparr>
              in case (outcome, renderState w1 r) of
                   (Inr wd, Some st) \<Rightarrow> w1\<lparr>renderState := (renderState w1)(r \<mapsto> resolved k wd st)\<rparr>
                 | _ \<Rightarrow> w1))
      else w)"

section \<open>Notions used to state the properties\<close>

text \<open>The module as loaded: an empty \<^verbatim>\<open>renderState\<close> weak map, and nothing allocated or
  called yet.\<close>

definition initial_World :: World where
  "initial_World =
     \<lparr>renderState = Map.empty, fresh = 0, projector_children = Map.empty, trace = [],
      outstanding = []\<rparr>"

text \<open>The render state a call of \<^verbatim>\<open>render\<close> works on (lines 69-77).\<close>

definition state_for :: "ReadOnlyRegistry \<Rightarrow> Element \<Rightarrow> World \<Rightarrow> RenderState" where
  "state_for registry r w =
     (case renderState w (registry_ref registry) of Some st \<Rightarrow> st | None \<Rightarrow> new_RenderState r)"

text \<open>The child an element of \<^verbatim>\<open>children\<close> stands for once it has settled: the child itself,
  or what a fulfilled promise's callback returns. A rejected promise has none.\<close>

fun fulfilled :: "entry \<Rightarrow> Child option" where
  "fulfilled (Ready c) = Some c"
| "fulfilled (Promised k (Inr wd)) = Some \<lparr>key = k, widget = wd\<rparr>"
| "fulfilled (Promised k (Inl e)) = None"

fun entry_key :: "entry \<Rightarrow> Key" where
  "entry_key (Ready c) = key c"
| "entry_key (Promised k outcome) = k"

text \<open>The values held by \<^verbatim>\<open>Promise.all\<close> fit the elements: each position holds either what
  it held at the start or the child its element stands for.\<close>

definition consistent :: "entry list \<Rightarrow> Child option list \<Rightarrow> bool" where
  "consistent es vs \<longleftrightarrow>
     length vs = length es \<and>
     (\<forall>i<length es. vs ! i = ready (es ! i) \<or> vs ! i = fulfilled (es ! i))"

text \<open>Every settled value is recorded in \<^verbatim>\<open>widgets\<close> under its key, and the value of a
  promise has its handle.\<close>

definition recorded :: "entry list \<Rightarrow> RenderState \<Rightarrow> Child option list \<Rightarrow> bool" where
  "recorded es st vs \<longleftrightarrow>
     (\<forall>i<length vs. \<forall>c. vs ! i = Some c \<longrightarrow>
        widgets st (key_ref (key c)) = Some (widget c) \<and>
        (ready (es ! i) = None \<longrightarrow>
           handles st (key_ref (key c)) = Some (WidgetHandle (widget c) (key c))))"

text \<open>The state in which a run of \<^verbatim>\<open>settle\<close> ends, fulfilled or rejected.\<close>

fun settled_state ::
    "(error \<times> nat \<times> RenderState \<times> Child option list) + (RenderState \<times> Child option list)
     \<Rightarrow> RenderState" where
  "settled_state (Inl (e, i, st, vs)) = st"
| "settled_state (Inr (st, vs)) = st"

text \<open>An identifier has no cached instance: it has no key, or its key has no widget.\<close>

definition uncached :: "RenderState \<Rightarrow> Identifier \<Rightarrow> bool" where
  "uncached st v \<longleftrightarrow>
     (case Map_get (widgetKeys st) v of None \<Rightarrow> True | Some k \<Rightarrow> widgets st (key_ref k) = None)"

text \<open>The identifiers a render asks the registry for before it reaches position \<open>i\<close> of the
  requested widgets: those of the earlier requests without a cached instance.\<close>

definition asked_before :: "RenderState \<Rightarrow> SceneWidget list \<Rightarrow> nat \<Rightarrow> Identifier list" where
  "asked_before st ws i = filter (uncached st) (map widget_id (take i ws))"


text \<open>Well-formed render states, relative to the allocator's next reference \<^verbatim>\<open>n\<close>: the keys
  in the two key maps are allocated objects; different identifiers have different Key
  objects; the projector of a recorded projector key exists, and its entry in \<^verbatim>\<open>children\<close>
  is the empty list of line 117, the only value the code ever stores there; nothing is stored under a reference that is not allocated yet; and a
  widget's key without a widget has no handle.
  Every world that \<^verbatim>\<open>render\<close>, the handles and late resolutions produce from the initial
  one is well-formed (lemmas \<^verbatim>\<open>wf_initial_World\<close>, \<^verbatim>\<open>render_wf\<close>, \<^verbatim>\<open>destroy_RenderHandle_wf\<close>
  and \<^verbatim>\<open>settle_outstanding_wf\<close>).\<close>

definition wf_state :: "nat \<Rightarrow> RenderState \<Rightarrow> bool" where
  "wf_state n st \<longleftrightarrow>
     (\<forall>v k. Map_get (widgetKeys st) v = Some k \<longrightarrow> key_ref k < n) \<and>
     (\<forall>v v' k k'. Map_get (widgetKeys st) v = Some k \<longrightarrow> Map_get (widgetKeys st) v' = Some k' \<longrightarrow>
        key_ref k = key_ref k' \<longrightarrow> v = v') \<and>
     (\<forall>p k. Map_get (projectorKeys st) p = Some k \<longrightarrow>
        key_ref k < n \<and> projectors st (key_ref k) \<noteq> None \<and> children st (key_ref k) = Some []) \<and>
     (\<forall>r\<ge>n. widgets st r = None \<and> handles st r = None \<and> projectors st r = None) \<and>
     (\<forall>v k. Map_get (widgetKeys st) v = Some k \<longrightarrow> widgets st (key_ref k) = None \<longrightarrow>
        handles st (key_ref k) = None)"

definition wf_world :: "World \<Rightarrow> bool" where
  "wf_world w \<longleftrightarrow>
     (\<forall>r st. renderState w r = Some st \<longrightarrow> wf_state (fresh w) st) \<and>
     (\<forall>r k outcome. (r, k, outcome) \<in> set (outstanding w) \<longrightarrow> key_ref k < fresh w)"

text \<open>No resolution of the registry is pending: every promise that an earlier render of
  this registry made has settled.\<close>

definition no_pending :: "ReadOnlyRegistry \<Rightarrow> World \<Rightarrow> bool" where
  "no_pending registry w \<longleftrightarrow> list_all (\<lambda>x. fst x \<noteq> registry_ref registry) (outstanding w)"

text \<open>The world after some of the pending resolutions have settled, one after the other:
  each number is the position, among those still pending, of the next one to settle.\<close>

definition settle_later :: "nat list \<Rightarrow> World \<Rightarrow> World" where
  "settle_later ns w = fold settle_outstanding ns w"


text \<open>A registry for the examples: a factory whose every call is fulfilled with a new
  widget, numbered from 100 in the order of the calls.\<close>

definition factory :: ReadOnlyRegistry where
  "factory = \<lparr>registry_ref = 7, getWidget = (\<lambda>h v. Inr (100 + length h))\<rparr>"

text \<open>A registry that knows no widget: every call is rejected.\<close>

definition rejecting :: ReadOnlyRegistry where
  "rejecting = \<lparr>registry_ref = 8, getWidget = (\<lambda>h v. Inl (Error ''unknown widget''))\<rparr>"

text \<open>A registry that knows every widget but B.\<close>

definition selective :: ReadOnlyRegistry where
  "selective = \<lparr>registry_ref = 9,
     getWidget = (\<lambda>h v. if v = ''B'' then Inl (Error ''unknown widget'') else Inr (100 + length h))\<rparr>"

section \<open>Lemmas\<close>

lemma Map_get_Map_set: "Map_get (Map_set k v m) k' = (if k' = k then Some v else Map_get m k')"
  by (induction m) auto

lemma Map_get_Map_delete: "Map_get (Map_delete k m) k' = (if k' = k then None else Map_get m k')"
  by (induction m) auto

lemma consistent_ready: "consistent es (map ready es)"
  by (simp add: consistent_def)

lemma settle_step:
  assumes "consistent es vs" "i < length es" "vs ! i = None" "es ! i = Promised k (Inr wd)"
  shows "consistent es (vs[i := Some \<lparr>key = k, widget = wd\<rparr>])"
  using assms by (auto simp: consistent_def nth_list_update)

lemma settle_values:
  "settle es order (st, vs) = Inr (st', vs') \<Longrightarrow> consistent es vs \<Longrightarrow>
     consistent es vs' \<and> (\<forall>i<length es. i \<in> set order \<or> vs ! i \<noteq> None \<longrightarrow> vs' ! i \<noteq> None)"
proof (induction order arbitrary: st vs)
  case Nil
  then show ?case by simp
next
  case (Cons j order)
  show ?case
  proof (cases "j < length es \<and> vs ! j = None")
    case False
    then have "settle es order (st, vs) = Inr (st', vs')" using Cons.prems(1) by auto
    from Cons.IH[OF this Cons.prems(2)] False show ?thesis by auto
  next
    case True
    with Cons.prems(2) have "ready (es ! j) = None \<or> fulfilled (es ! j) = None"
      by (auto simp: consistent_def)
    then obtain k outcome where P: "es ! j = Promised k outcome"
      by (cases "es ! j") auto
    show ?thesis
    proof (cases outcome)
      case (Inl e)
      with P True Cons.prems(1) show ?thesis by simp
    next
      case (Inr wd)
      let ?vs = "vs[j := Some \<lparr>key = k, widget = wd\<rparr>]"
      have c: "consistent es ?vs" using settle_step Cons.prems(2) True P Inr by blast
      have s: "settle es order (resolved k wd st, ?vs) = Inr (st', vs')"
        using Cons.prems(1) True P Inr by simp
      have len: "length vs = length es" using Cons.prems(2) by (simp add: consistent_def)
      from Cons.IH[OF s c] len True show ?thesis
        by (auto simp: nth_list_update split: if_splits)
    qed
  qed
qed

lemma all_Some: "\<forall>i<length vs. vs ! i \<noteq> None \<Longrightarrow> \<exists>cs. vs = map Some cs"
proof -
  assume "\<forall>i<length vs. vs ! i \<noteq> None"
  then have "vs = map Some (map the vs)" by (simp add: list_eq_iff_nth_eq)
  then show ?thesis ..
qed

lemma those_map_Some: "those (map Some cs) = Some cs"
  by (induction cs) auto

lemma settle_all:
  assumes "settle es (order @ [0..<length es]) (st, map ready es) = Inr (st', vs')"
  shows "\<exists>cs. vs' = map Some cs \<and> map fulfilled es = map Some cs"
proof -
  from settle_values[OF assms consistent_ready]
  have c: "consistent es vs'" and a: "\<forall>i<length es. vs' ! i \<noteq> None" by auto
  from c have len: "length vs' = length es" by (simp add: consistent_def)
  with a all_Some obtain cs where cs: "vs' = map Some cs" by metis
  have "\<forall>i<length es. vs' ! i = fulfilled (es ! i)"
  proof (intro allI impI)
    fix i assume i: "i < length es"
    with c have "vs' ! i = ready (es ! i) \<or> vs' ! i = fulfilled (es ! i)" by (simp add: consistent_def)
    moreover have "ready (es ! i) = None \<or> ready (es ! i) = fulfilled (es ! i)" by (cases "es ! i") auto
    ultimately show "vs' ! i = fulfilled (es ! i)" using a i by auto
  qed
  with len have "map fulfilled es = vs'" by (simp add: list_eq_iff_nth_eq)
  with cs show ?thesis by blast
qed

lemma resolve_children_append:
  "resolve_children registry (xs @ ys) s =
     (case resolve_children registry xs s of
        (es, s1) \<Rightarrow> (case resolve_children registry ys s1 of (es', s2) \<Rightarrow> (es @ es', s2)))"
proof (induction xs arbitrary: s)
  case Nil
  then show ?case by (simp split: prod.splits)
next
  case (Cons x xs)
  obtain v where x: "x = SceneWidget v" by (cases x)
  show ?case using Cons.IH by (simp add: x split: prod.splits)
qed

lemma resolve_children_length: "length (fst (resolve_children registry ws s)) = length ws"
proof (induction ws arbitrary: s)
  case Nil
  then show ?case by simp
next
  case (Cons x xs)
  obtain v where x: "x = SceneWidget v" by (cases x)
  show ?case using Cons.IH
    by (auto simp: x split: prod.splits) (metis fst_conv)
qed

lemma resolve_children_nth:
  assumes "i < length ws"
  shows "fst (resolve_children registry ws s) ! i =
         fst (resolve_child registry (widget_id (ws ! i)) (snd (resolve_children registry (take i ws) s)))"
proof -
  have ws: "ws = take i ws @ (ws ! i # drop (Suc i) ws)"
    using assms by (simp add: id_take_nth_drop)
  obtain v where v: "ws ! i = SceneWidget v" by (cases "ws ! i")
  have len: "length (fst (resolve_children registry (take i ws) s)) = i"
    using assms by (simp add: resolve_children_length)
  have "fst (resolve_children registry (take i ws @ (ws ! i # drop (Suc i) ws)) s) ! i =
        fst (resolve_child registry (widget_id (ws ! i)) (snd (resolve_children registry (take i ws) s)))"
    using len by (auto simp: resolve_children_append v nth_append split: prod.splits)
  with ws show ?thesis by simp
qed

lemma incr_new_Counter: "incr (new_Counter []) = (''.0'', \<lparr>prefix = [], count = 1\<rparr>)"
  by (simp add: incr_def new_Counter_def decimal.simps digit_def)

lemmas eval_defs = updateProjectorChildren_def all_resolved_def resolve_child_def projector_for_def
  update_def render_def
  new_RenderState_def new_Key_def Map_has_def createProjector_def attach_def resolved_def
  includes_key_def initial_World_def factory_def rejecting_def destroy_RenderHandle_def
  invoke_handle_def incr_new_Counter

lemma wf_new_RenderState: "wf_state n (new_RenderState r)"
  by (simp add: wf_state_def new_RenderState_def)

lemma wf_initial_World: "wf_world initial_World"
  by (simp add: wf_world_def initial_World_def)

lemma wf_state_mono: "wf_state n st \<Longrightarrow> n \<le> m \<Longrightarrow> wf_state m st"
  unfolding wf_state_def by (meson le_trans less_le_trans)

text \<open>The four ways the map callback can go.\<close>

lemma resolve_child_cases:
  fixes registry v st w
  defines "rid \<equiv> registry_ref registry"
  defines "k' \<equiv> \<lparr>key_ref = fresh w, key_value = v\<rparr>"
  obtains
    (cached) k wd where "Map_get (widgetKeys st) v = Some k" "widgets st (key_ref k) = Some wd"
      "resolve_child registry v (st, w) = (Ready \<lparr>key = k, widget = wd\<rparr>, (st, w))"
  | (pending) k where "Map_get (widgetKeys st) v = Some k" "widgets st (key_ref k) = None"
      "resolve_child registry v (st, w) =
         (Promised k (getWidget registry (requests rid (trace w)) v),
          (st, w\<lparr>trace := trace w @ [GetWidget rid v]\<rparr>))"
  | (new_cached) wd where "Map_get (widgetKeys st) v = None" "widgets st (fresh w) = Some wd"
      "resolve_child registry v (st, w) =
         (Ready \<lparr>key = k', widget = wd\<rparr>,
          (st\<lparr>widgetKeys := Map_set v k' (widgetKeys st)\<rparr>, w\<lparr>fresh := Suc (fresh w)\<rparr>))"
  | (new_pending) "Map_get (widgetKeys st) v = None" "widgets st (fresh w) = None"
      "resolve_child registry v (st, w) =
         (Promised k' (getWidget registry (requests rid (trace w)) v),
          (st\<lparr>widgetKeys := Map_set v k' (widgetKeys st)\<rparr>,
           w\<lparr>fresh := Suc (fresh w), trace := trace w @ [GetWidget rid v]\<rparr>))"
proof (cases "Map_get (widgetKeys st) v")
  case None
  show ?thesis
  proof (cases "widgets st (fresh w)")
    case N: None
    with None have "resolve_child registry v (st, w) =
         (Promised k' (getWidget registry (requests rid (trace w)) v),
          (st\<lparr>widgetKeys := Map_set v k' (widgetKeys st)\<rparr>,
           w\<lparr>fresh := Suc (fresh w), trace := trace w @ [GetWidget rid v]\<rparr>))"
      by (simp add: resolve_child_def new_Key_def Map_has_def k'_def rid_def)
    with None N show ?thesis using new_pending by blast
  next
    case (Some wd)
    with None have "resolve_child registry v (st, w) =
         (Ready \<lparr>key = k', widget = wd\<rparr>,
          (st\<lparr>widgetKeys := Map_set v k' (widgetKeys st)\<rparr>, w\<lparr>fresh := Suc (fresh w)\<rparr>))"
      by (simp add: resolve_child_def new_Key_def Map_has_def k'_def rid_def)
    with None Some show ?thesis using new_cached by blast
  qed
next
  case (Some k)
  show ?thesis
  proof (cases "widgets st (key_ref k)")
    case None
    with Some have "resolve_child registry v (st, w) =
         (Promised k (getWidget registry (requests rid (trace w)) v),
          (st, w\<lparr>trace := trace w @ [GetWidget rid v]\<rparr>))"
      by (simp add: resolve_child_def new_Key_def Map_has_def k'_def rid_def)
    with None Some show ?thesis using pending by blast
  next
    case S: (Some wd)
    with Some have "resolve_child registry v (st, w) = (Ready \<lparr>key = k, widget = wd\<rparr>, (st, w))"
      by (simp add: resolve_child_def new_Key_def Map_has_def k'_def rid_def)
    with S Some show ?thesis using cached by blast
  qed
qed

lemma resolve_child_frame:
  assumes "resolve_child registry v (st, w) = (e, (st', w'))"
  shows "widgets st' = widgets st" "handles st' = handles st" "children st' = children st"
    "projectors st' = projectors st" "projectorKeys st' = projectorKeys st" "root st' = root st"
    "renderState w' = renderState w" "projector_children w' = projector_children w"
    "outstanding w' = outstanding w" "fresh w \<le> fresh w'"
  using assms by (cases rule: resolve_child_cases[where st=st and v=v and w=w and registry=registry]; auto)+

lemma resolve_child_key:
  assumes "resolve_child registry v (st, w) = (e, (st', w'))"
  shows "Map_get (widgetKeys st') v = Some (entry_key e)"
  using assms by (cases rule: resolve_child_cases[where st=st and v=v and w=w and registry=registry]) (auto simp: Map_get_Map_set)

lemma resolve_child_mono:
  assumes "resolve_child registry v (st, w) = (e, (st', w'))" "Map_get (widgetKeys st) v' = Some k"
  shows "Map_get (widgetKeys st') v' = Some k"
  using assms by (cases rule: resolve_child_cases[where st=st and v=v and w=w and registry=registry]) (auto simp: Map_get_Map_set)

lemma resolve_child_shape:
  assumes "resolve_child registry v (st, w) = (e, (st', w'))"
  shows "case e of Ready c \<Rightarrow> widgets st (key_ref (key c)) = Some (widget c)
                 | Promised k outcome \<Rightarrow> widgets st (key_ref k) = None"
  using assms by (cases rule: resolve_child_cases[where st=st and v=v and w=w and registry=registry]) auto

lemma resolve_child_wf:
  assumes "resolve_child registry v (st, w) = (e, (st', w'))" "wf_state (fresh w) st"
  shows "wf_state (fresh w') st'"
  using assms(1)
proof (cases rule: resolve_child_cases[where st=st and v=v and w=w and registry=registry])
  case (cached k wd)
  with assms show ?thesis by auto
next
  case (pending k)
  with assms show ?thesis by auto
next
  case (new_cached wd)
  with assms(2) show ?thesis by (simp add: wf_state_def)
next
  case new_pending
  with assms have st': "st' = st\<lparr>widgetKeys := Map_set v \<lparr>key_ref = fresh w, key_value = v\<rparr> (widgetKeys st)\<rparr>"
    and w': "fresh w' = Suc (fresh w)" by auto
  let ?k = "\<lparr>key_ref = fresh w, key_value = v\<rparr>"
  from assms(2) have
    W1: "\<And>v k. Map_get (widgetKeys st) v = Some k \<Longrightarrow> key_ref k < fresh w" and
    W2: "\<And>v v' k k'. Map_get (widgetKeys st) v = Some k \<Longrightarrow> Map_get (widgetKeys st) v' = Some k' \<Longrightarrow>
        key_ref k = key_ref k' \<Longrightarrow> v = v'" and
    W3: "\<And>p k. Map_get (projectorKeys st) p = Some k \<Longrightarrow>
        key_ref k < fresh w \<and> projectors st (key_ref k) \<noteq> None \<and> children st (key_ref k) = Some []" and
    W4: "\<And>r. fresh w \<le> r \<Longrightarrow> widgets st r = None \<and> handles st r = None \<and> projectors st r = None" and
    W5: "\<And>v k. Map_get (widgetKeys st) v = Some k \<Longrightarrow> widgets st (key_ref k) = None \<Longrightarrow>
        handles st (key_ref k) = None"
    unfolding wf_state_def by blast+
  have 1: "\<forall>u k. Map_get (widgetKeys st') u = Some k \<longrightarrow> key_ref k < fresh w'"
    using W1 by (auto simp: st' w' Map_get_Map_set less_Suc_eq split: if_splits)
  have 2: "\<forall>u u' k k'. Map_get (widgetKeys st') u = Some k \<longrightarrow> Map_get (widgetKeys st') u' = Some k' \<longrightarrow>
        key_ref k = key_ref k' \<longrightarrow> u = u'"
    using W1 W2 by (auto simp: st' Map_get_Map_set split: if_splits) (metis less_irrefl)+
  have 3: "\<forall>p k. Map_get (projectorKeys st') p = Some k \<longrightarrow>
        key_ref k < fresh w' \<and> projectors st' (key_ref k) \<noteq> None \<and> children st' (key_ref k) = Some []"
    using W3 by (auto simp: st' w' less_Suc_eq)
  have 4: "\<forall>r\<ge>fresh w'. widgets st' r = None \<and> handles st' r = None \<and> projectors st' r = None"
    using W4 by (auto simp: st' w')
  have 5: "\<forall>u k. Map_get (widgetKeys st') u = Some k \<longrightarrow> widgets st' (key_ref k) = None \<longrightarrow>
        handles st' (key_ref k) = None"
    using W5 W4 by (auto simp: st' Map_get_Map_set split: if_splits)
  from 1 2 3 4 5 show ?thesis unfolding wf_state_def by blast
qed

lemma resolve_children_ConsE:
  assumes "resolve_children registry (x # xs) (st, w) = (es, (st', w'))"
  obtains e es1 st1 w1 where
    "resolve_child registry (widget_id x) (st, w) = (e, (st1, w1))"
    "resolve_children registry xs (st1, w1) = (es1, (st', w'))" "es = e # es1"
proof -
  obtain v where x: "x = SceneWidget v" by (cases x)
  obtain e st1 w1 where a: "resolve_child registry v (st, w) = (e, (st1, w1))"
    by (metis prod.collapse)
  obtain es1 s2 where b: "resolve_children registry xs (st1, w1) = (es1, s2)"
    by (metis prod.collapse)
  from assms a b x have "es = e # es1" "s2 = (st', w')" by auto
  with a b x that show ?thesis by simp
qed

lemma resolve_children_frame:
  assumes "resolve_children registry ws (st, w) = (es, (st', w'))"
  shows "widgets st' = widgets st \<and> handles st' = handles st \<and> children st' = children st \<and>
    projectors st' = projectors st \<and> projectorKeys st' = projectorKeys st \<and> root st' = root st \<and>
    renderState w' = renderState w \<and> projector_children w' = projector_children w \<and>
    outstanding w' = outstanding w \<and> fresh w \<le> fresh w'"
  using assms
proof (induction ws arbitrary: st w es)
  case Nil
  then show ?case by simp
next
  case (Cons x xs)
  from Cons.prems obtain e es1 st1 w1 where
    a: "resolve_child registry (widget_id x) (st, w) = (e, (st1, w1))" and
    b: "resolve_children registry xs (st1, w1) = (es1, (st', w'))"
    by (rule resolve_children_ConsE)
  from Cons.IH[OF b] resolve_child_frame[OF a] show ?case by simp
qed

lemma resolve_children_wf:
  assumes "resolve_children registry ws (st, w) = (es, (st', w'))" "wf_state (fresh w) st"
  shows "wf_state (fresh w') st'"
  using assms
proof (induction ws arbitrary: st w es)
  case Nil
  then show ?case by simp
next
  case (Cons x xs)
  from Cons.prems(1) obtain e es1 st1 w1 where
    a: "resolve_child registry (widget_id x) (st, w) = (e, (st1, w1))" and
    b: "resolve_children registry xs (st1, w1) = (es1, (st', w'))"
    by (rule resolve_children_ConsE)
  from Cons.IH[OF b resolve_child_wf[OF a Cons.prems(2)]] show ?case .
qed

lemma resolve_children_mono:
  assumes "resolve_children registry ws (st, w) = (es, (st', w'))" "Map_get (widgetKeys st) v = Some k"
  shows "Map_get (widgetKeys st') v = Some k"
  using assms
proof (induction ws arbitrary: st w es)
  case Nil
  then show ?case by simp
next
  case (Cons x xs)
  from Cons.prems(1) obtain e es1 st1 w1 where
    a: "resolve_child registry (widget_id x) (st, w) = (e, (st1, w1))" and
    b: "resolve_children registry xs (st1, w1) = (es1, (st', w'))"
    by (rule resolve_children_ConsE)
  from Cons.IH[OF b resolve_child_mono[OF a Cons.prems(2)]] show ?case .
qed

lemma resolve_children_keys:
  assumes "resolve_children registry ws (st, w) = (es, (st', w'))" "i < length ws"
  shows "Map_get (widgetKeys st') (widget_id (ws ! i)) = Some (entry_key (es ! i))"
  using assms
proof (induction ws arbitrary: st w es i)
  case Nil
  then show ?case by simp
next
  case (Cons x xs)
  from Cons.prems(1) obtain e es1 st1 w1 where
    a: "resolve_child registry (widget_id x) (st, w) = (e, (st1, w1))" and
    b: "resolve_children registry xs (st1, w1) = (es1, (st', w'))" and es: "es = e # es1"
    by (rule resolve_children_ConsE)
  show ?case
  proof (cases i)
    case 0
    from resolve_children_mono[OF b resolve_child_key[OF a]] show ?thesis by (simp add: 0 es)
  next
    case (Suc j)
    with Cons.prems(2) have "j < length xs" by simp
    from Cons.IH[OF b this] show ?thesis by (simp add: Suc es)
  qed
qed

lemma resolve_children_shape:
  assumes "resolve_children registry ws (st, w) = (es, (st', w'))" "i < length ws"
  shows "case es ! i of Ready c \<Rightarrow> widgets st (key_ref (key c)) = Some (widget c)
                      | Promised k outcome \<Rightarrow> widgets st (key_ref k) = None"
  using assms
proof (induction ws arbitrary: st w es i)
  case Nil
  then show ?case by simp
next
  case (Cons x xs)
  from Cons.prems(1) obtain e es1 st1 w1 where
    a: "resolve_child registry (widget_id x) (st, w) = (e, (st1, w1))" and
    b: "resolve_children registry xs (st1, w1) = (es1, (st', w'))" and es: "es = e # es1"
    by (rule resolve_children_ConsE)
  show ?case
  proof (cases i)
    case 0
    from resolve_child_shape[OF a] show ?thesis by (simp add: 0 es)
  next
    case (Suc j)
    with Cons.prems(2) have "j < length xs" by simp
    from Cons.IH[OF b this] resolve_child_frame(1)[OF a] show ?thesis
      by (auto simp: Suc es split: entry.splits)
  qed
qed

lemma requests_append: "requests r (xs @ ys) = requests r xs @ requests r ys"
  by (induction r xs rule: requests.induct) auto

lemma requests_GetWidget: "requests r (map (GetWidget r) vs) = vs"
  by (induction vs) auto

text \<open>The map phase extends the trace by registry calls only: at most one for each
  requested widget.\<close>

lemma resolve_children_trace:
  assumes "resolve_children registry ws (st, w) = (es, (st', w'))"
  shows "\<exists>new. trace w' = trace w @ map (GetWidget (registry_ref registry)) new \<and>
           (\<forall>v. count_list new v \<le> count_list (map widget_id ws) v)"
  using assms
proof (induction ws arbitrary: st w es)
  case Nil
  then show ?case by simp
next
  case (Cons x xs)
  from Cons.prems(1) obtain e es1 st1 w1 where
    a: "resolve_child registry (widget_id x) (st, w) = (e, (st1, w1))" and
    b: "resolve_children registry xs (st1, w1) = (es1, (st', w'))" and es: "es = e # es1"
    by (rule resolve_children_ConsE)
  from Cons.IH[OF b] obtain new where
    new: "trace w' = trace w1 @ map (GetWidget (registry_ref registry)) new"
      "\<forall>v. count_list new v \<le> count_list (map widget_id xs) v" by blast
  from a have "trace w1 = trace w \<or> trace w1 = trace w @ [GetWidget (registry_ref registry) (widget_id x)]"
    by (cases rule: resolve_child_cases[where st=st and v="widget_id x" and w=w and registry=registry]) auto
  then show ?case
  proof
    assume "trace w1 = trace w"
    with new have "trace w' = trace w @ map (GetWidget (registry_ref registry)) new \<and>
           (\<forall>v. count_list new v \<le> count_list (map widget_id (x # xs)) v)"
      by (auto simp: le_SucI)
    then show ?thesis by blast
  next
    assume "trace w1 = trace w @ [GetWidget (registry_ref registry) (widget_id x)]"
    with new have "trace w' = trace w @ map (GetWidget (registry_ref registry)) (widget_id x # new) \<and>
           (\<forall>v. count_list (widget_id x # new) v \<le> count_list (map widget_id (x # xs)) v)"
      by auto
    then show ?thesis by blast
  qed
qed

lemma resolve_children_uncached:
  assumes "resolve_children registry ws (st, w) = (es, (st', w'))" "uncached st v"
    "\<forall>r\<ge>fresh w. widgets st r = None"
  shows "\<exists>new. trace w' = trace w @ map (GetWidget (registry_ref registry)) new \<and>
           count_list new v = count_list (map widget_id ws) v \<and> uncached st' v"
  using assms
proof (induction ws arbitrary: st w es)
  case Nil
  then show ?case by simp
next
  case (Cons x xs)
  from Cons.prems(1) obtain e es1 st1 w1 where
    a: "resolve_child registry (widget_id x) (st, w) = (e, (st1, w1))" and
    b: "resolve_children registry xs (st1, w1) = (es1, (st', w'))" and es: "es = e # es1"
    by (rule resolve_children_ConsE)
  let ?g = "GetWidget (registry_ref registry)"
  from a Cons.prems(2,3) have
    step: "uncached st1 v \<and> (\<forall>r\<ge>fresh w1. widgets st1 r = None) \<and>
       (if widget_id x = v then trace w1 = trace w @ [?g v]
        else trace w1 = trace w \<or> trace w1 = trace w @ [?g (widget_id x)])"
    by (cases rule: resolve_child_cases[where st=st and v="widget_id x" and w=w and registry=registry])
       (auto simp: uncached_def Map_get_Map_set split: option.splits)
  with Cons.IH[OF b] obtain new where
    new: "trace w' = trace w1 @ map ?g new" "count_list new v = count_list (map widget_id xs) v"
      "uncached st' v" by blast
  show ?case
  proof (cases "trace w1 = trace w")
    case True
    with step have "widget_id x \<noteq> v" by auto
    with new True have "trace w' = trace w @ map ?g new \<and>
      count_list new v = count_list (map widget_id (x # xs)) v \<and> uncached st' v" by simp
    then show ?thesis by blast
  next
    case False
    with step have "trace w1 = trace w @ [?g (widget_id x)]" by (auto split: if_splits)
    with new have "trace w' = trace w @ map ?g (widget_id x # new) \<and>
      count_list (widget_id x # new) v = count_list (map widget_id (x # xs)) v \<and> uncached st' v" by simp
    then show ?thesis by blast
  qed
qed

lemma settle_Cons:
  "settle es (i # order) (st, vs) = settle es order (st, vs) \<or>
   (\<exists>k wd. i < length es \<and> vs ! i = None \<and> es ! i = Promised k (Inr wd) \<and>
      settle es (i # order) (st, vs) = settle es order (resolved k wd st, vs[i := Some \<lparr>key = k, widget = wd\<rparr>])) \<or>
   (\<exists>k e. i < length es \<and> vs ! i = None \<and> es ! i = Promised k (Inl e) \<and>
      settle es (i # order) (st, vs) = Inl (e, i, st, vs))"
  by (auto split: entry.splits sum.splits)

lemma settle_frame:
  "widgetKeys (settled_state (settle es order (st, vs))) = widgetKeys st \<and>
   children (settled_state (settle es order (st, vs))) = children st \<and>
   projectors (settled_state (settle es order (st, vs))) = projectors st \<and>
   projectorKeys (settled_state (settle es order (st, vs))) = projectorKeys st \<and>
   root (settled_state (settle es order (st, vs))) = root st"
proof (induction order arbitrary: st vs)
  case Nil
  then show ?case by simp
next
  case (Cons i order)
  from settle_Cons[of es i order st vs] show ?case
  proof (elim disjE exE conjE)
    assume "settle es (i # order) (st, vs) = settle es order (st, vs)"
    with Cons.IH[of st vs] show ?thesis by simp
  next
    fix k wd
    assume "settle es (i # order) (st, vs) = settle es order (resolved k wd st, vs[i := Some \<lparr>key = k, widget = wd\<rparr>])"
    with Cons.IH[of "resolved k wd st" "vs[i := Some \<lparr>key = k, widget = wd\<rparr>]"] show ?thesis
      by (simp add: resolved_def)
  next
    fix k e
    assume "settle es (i # order) (st, vs) = Inl (e, i, st, vs)"
    then show ?thesis by simp
  qed
qed

lemma resolved_wf: "wf_state n st \<Longrightarrow> key_ref k < n \<Longrightarrow> wf_state n (resolved k wd st)"
  unfolding wf_state_def resolved_def by (simp; blast)

lemma settle_wf:
  "wf_state n st \<Longrightarrow> \<forall>i<length es. key_ref (entry_key (es ! i)) < n \<Longrightarrow>
     wf_state n (settled_state (settle es order (st, vs)))"
proof (induction order arbitrary: st vs)
  case Nil
  then show ?case by simp
next
  case (Cons i order)
  from settle_Cons[of es i order st vs] show ?case
  proof (elim disjE exE conjE)
    assume "settle es (i # order) (st, vs) = settle es order (st, vs)"
    with Cons.IH[of st vs] Cons.prems show ?thesis by simp
  next
    fix k wd
    assume a: "i < length es" "es ! i = Promised k (Inr wd)"
      "settle es (i # order) (st, vs) = settle es order (resolved k wd st, vs[i := Some \<lparr>key = k, widget = wd\<rparr>])"
    with Cons.prems(2) have "key_ref k < n" by fastforce
    with Cons.IH[of "resolved k wd st" "vs[i := Some \<lparr>key = k, widget = wd\<rparr>]"] Cons.prems a(3)
    show ?thesis by (simp add: resolved_wf)
  next
    fix k e
    assume "settle es (i # order) (st, vs) = Inl (e, i, st, vs)"
    with Cons.prems show ?thesis by simp
  qed
qed


lemma settle_rejected:
  "settle es order (st, vs) = Inl (e, i, st', vs') \<Longrightarrow> i < length es \<and> (\<exists>k. es ! i = Promised k (Inl e))"
proof (induction order arbitrary: st vs)
  case Nil
  then show ?case by simp
next
  case (Cons j order)
  from settle_Cons[of es j order st vs] show ?case
  proof (elim disjE exE conjE)
    assume "settle es (j # order) (st, vs) = settle es order (st, vs)"
    with Cons.IH[of st vs] Cons.prems show ?thesis by simp
  next
    fix k wd
    assume "settle es (j # order) (st, vs) = settle es order (resolved k wd st, vs[j := Some \<lparr>key = k, widget = wd\<rparr>])"
    with Cons.IH[of "resolved k wd st" "vs[j := Some \<lparr>key = k, widget = wd\<rparr>]"] Cons.prems
    show ?thesis by simp
  next
    fix k e'
    assume "j < length es" "es ! j = Promised k (Inl e')" "settle es (j # order) (st, vs) = Inl (e', j, st, vs)"
    with Cons.prems show ?thesis by simp
  qed
qed

text \<open>When the keys of the elements are pairwise different objects, every settled value is
  recorded under its key and stays there.\<close>

lemma settle_recorded:
  assumes "distinct (map (key_ref \<circ> entry_key) es)"
  shows "settle es order (st, vs) = Inr (st', vs') \<Longrightarrow> consistent es vs \<Longrightarrow> recorded es st vs
    \<Longrightarrow> recorded es st' vs'"
proof (induction order arbitrary: st vs)
  case Nil
  then show ?case by simp
next
  case (Cons j order)
  from settle_Cons[of es j order st vs] show ?case
  proof (elim disjE exE conjE)
    assume "settle es (j # order) (st, vs) = settle es order (st, vs)"
    with Cons.IH[of st vs] Cons.prems show ?thesis by simp
  next
    fix k wd
    assume a: "j < length es" "vs ! j = None" "es ! j = Promised k (Inr wd)"
      "settle es (j # order) (st, vs) = settle es order (resolved k wd st, vs[j := Some \<lparr>key = k, widget = wd\<rparr>])"
    let ?vs = "vs[j := Some \<lparr>key = k, widget = wd\<rparr>]"
    have c: "consistent es ?vs" using settle_step[OF Cons.prems(2) a(1,2,3)] .
    have len: "length vs = length es" using Cons.prems(2) by (simp add: consistent_def)
    have r: "recorded es (resolved k wd st) ?vs"
      unfolding recorded_def
    proof (intro allI impI)
      fix i c assume i: "i < length ?vs" and v: "?vs ! i = Some c"
      show "widgets (resolved k wd st) (key_ref (key c)) = Some (widget c) \<and>
        (ready (es ! i) = None \<longrightarrow>
           handles (resolved k wd st) (key_ref (key c)) = Some (WidgetHandle (widget c) (key c)))"
      proof (cases "i = j")
        case True
        with v i have "c = \<lparr>key = k, widget = wd\<rparr>" by simp
        then show ?thesis by (simp add: resolved_def)
      next
        case False
        with v have vi: "vs ! i = Some c" by simp
        with Cons.prems(3) i have w: "widgets st (key_ref (key c)) = Some (widget c) \<and>
          (ready (es ! i) = None \<longrightarrow>
             handles st (key_ref (key c)) = Some (WidgetHandle (widget c) (key c)))"
          by (simp add: recorded_def)
        from vi Cons.prems(2) i len have "ready (es ! i) = Some c \<or> fulfilled (es ! i) = Some c"
          by (auto simp: consistent_def)
        then have "entry_key (es ! i) = key c"
          by (cases "es ! i" rule: fulfilled.cases) auto
        moreover have "key_ref (entry_key (es ! i)) \<noteq> key_ref (entry_key (es ! j))"
          using assms False i len a(1) by (simp add: distinct_conv_nth)
        ultimately have "key_ref (key c) \<noteq> key_ref k" using a(3) by simp
        with w show ?thesis by (simp add: resolved_def)
      qed
    qed
    from a(4) Cons.prems(1) have "settle es order (resolved k wd st, ?vs) = Inr (st', vs')" by simp
    from Cons.IH[OF this c r] show ?thesis .
  next
    fix k e'
    assume "settle es (j # order) (st, vs) = Inl (e', j, st, vs)"
    with Cons.prems show ?thesis by simp
  qed
qed

text \<open>With nothing pending, nothing happens.\<close>

lemma settle_nothing: "\<forall>i<length es. vs ! i \<noteq> None \<Longrightarrow> settle es order (st, vs) = Inr (st, vs)"
  by (induction order) auto

lemma all_resolved_no_previous:
  "children st (key_ref projectorKey) = Some [] \<Longrightarrow>
     all_resolved projectorKey projector cs (st, w) =
       (Inr (), (st, w\<lparr>projector_children := (projector_children w)(projector \<mapsto> map widget cs)\<rparr>))"
  by (simp add: all_resolved_def)

lemma wf_stateD:
  assumes "wf_state n st"
  shows "\<And>v k. Map_get (widgetKeys st) v = Some k \<Longrightarrow> key_ref k < n"
    and "\<And>v v' k k'. Map_get (widgetKeys st) v = Some k \<Longrightarrow> Map_get (widgetKeys st) v' = Some k' \<Longrightarrow>
        key_ref k = key_ref k' \<Longrightarrow> v = v'"
    and "\<And>p k. Map_get (projectorKeys st) p = Some k \<Longrightarrow>
        key_ref k < n \<and> projectors st (key_ref k) \<noteq> None \<and> children st (key_ref k) = Some []"
    and "\<And>r. n \<le> r \<Longrightarrow> widgets st r = None \<and> handles st r = None \<and> projectors st r = None"
    and "\<And>v k. Map_get (widgetKeys st) v = Some k \<Longrightarrow> widgets st (key_ref k) = None \<Longrightarrow>
        handles st (key_ref k) = None"
  using assms unfolding wf_state_def by blast+

text \<open>The first part of \<open>update\<close> in a well-formed state: the projector of the root position is
  either the one recorded before, and nothing changes, or a new one.\<close>

lemma projector_for_cases:
  assumes "wf_state (fresh w) st"
  obtains
    (known) pk p where "Map_get (projectorKeys st) ''.0'' = Some pk" "projectors st (key_ref pk) = Some p"
      "children st (key_ref pk) = Some []"
      "projector_for (new_Counter []) (st, w) = ((pk, p, \<lparr>prefix = [], count = 1\<rparr>), (st, w))"
  | (created) "Map_get (projectorKeys st) ''.0'' = None"
      "projector_for (new_Counter []) (st, w) =
         ((\<lparr>key_ref = fresh w, key_value = ''.0''\<rparr>, Suc (fresh w), \<lparr>prefix = [], count = 1\<rparr>),
          (st\<lparr>projectorKeys := Map_set ''.0'' \<lparr>key_ref = fresh w, key_value = ''.0''\<rparr> (projectorKeys st),
              projectors := (projectors st)(fresh w \<mapsto> Suc (fresh w)),
              children := (children st)(fresh w \<mapsto> []),
              handles := (handles st)(fresh w \<mapsto> ProjectorHandle \<lparr>key_ref = fresh w, key_value = ''.0''\<rparr>)\<rparr>,
           w\<lparr>fresh := Suc (Suc (fresh w)), trace := trace w @ [CreateProjector (Suc (fresh w)) (root st)]\<rparr>))"
proof (cases "Map_get (projectorKeys st) ''.0''")
  case None
  moreover from wf_stateD(4)[OF assms, of "fresh w"] have "projectors st (fresh w) = None" by simp
  ultimately have "projector_for (new_Counter []) (st, w) =
         ((\<lparr>key_ref = fresh w, key_value = ''.0''\<rparr>, Suc (fresh w), \<lparr>prefix = [], count = 1\<rparr>),
          (st\<lparr>projectorKeys := Map_set ''.0'' \<lparr>key_ref = fresh w, key_value = ''.0''\<rparr> (projectorKeys st),
              projectors := (projectors st)(fresh w \<mapsto> Suc (fresh w)),
              children := (children st)(fresh w \<mapsto> []),
              handles := (handles st)(fresh w \<mapsto> ProjectorHandle \<lparr>key_ref = fresh w, key_value = ''.0''\<rparr>)\<rparr>,
           w\<lparr>fresh := Suc (Suc (fresh w)), trace := trace w @ [CreateProjector (Suc (fresh w)) (root st)]\<rparr>))"
    by (simp add: projector_for_def incr_new_Counter new_Key_def Map_has_def createProjector_def)
  with None created show ?thesis by blast
next
  case (Some pk)
  from wf_stateD(3)[OF assms Some] obtain p where
    p: "projectors st (key_ref pk) = Some p" and c: "children st (key_ref pk) = Some []" by auto
  with Some have "projector_for (new_Counter []) (st, w) = ((pk, p, \<lparr>prefix = [], count = 1\<rparr>), (st, w))"
    by (simp add: projector_for_def incr_new_Counter Map_has_def)
  with Some p c known show ?thesis by blast
qed

lemma projector_for_wf:
  assumes "wf_state (fresh w) st" "projector_for (new_Counter []) (st, w) = ((pk, p, c1), (st2, w2))"
  shows "wf_state (fresh w2) st2" "children st2 (key_ref pk) = Some []"
    "projectors st2 (key_ref pk) = Some p" "Map_get (projectorKeys st2) ''.0'' = Some pk"
    "widgetKeys st2 = widgetKeys st" "widgets st2 = widgets st" "root st2 = root st"
    "renderState w2 = renderState w" "projector_children w2 = projector_children w"
    "outstanding w2 = outstanding w" "fresh w \<le> fresh w2"
    "trace w2 = trace w \<or> trace w2 = trace w @ [CreateProjector p (root st)]"
proof -
  note W = wf_stateD[OF assms(1)]
  have "wf_state (fresh w2) st2 \<and> children st2 (key_ref pk) = Some [] \<and>
    projectors st2 (key_ref pk) = Some p \<and> Map_get (projectorKeys st2) ''.0'' = Some pk \<and>
    widgetKeys st2 = widgetKeys st \<and> widgets st2 = widgets st \<and> root st2 = root st \<and>
    renderState w2 = renderState w \<and> projector_children w2 = projector_children w \<and>
    outstanding w2 = outstanding w \<and> fresh w \<le> fresh w2 \<and>
    (trace w2 = trace w \<or> trace w2 = trace w @ [CreateProjector p (root st)])"
    using assms(1)
  proof (cases rule: projector_for_cases[where w=w and st=st])
    case (known pk' p')
    with assms show ?thesis by simp
  next
    case created
    with assms(2) have
      st2: "st2 = st\<lparr>projectorKeys := Map_set ''.0'' \<lparr>key_ref = fresh w, key_value = ''.0''\<rparr> (projectorKeys st),
              projectors := (projectors st)(fresh w \<mapsto> Suc (fresh w)),
              children := (children st)(fresh w \<mapsto> []),
              handles := (handles st)(fresh w \<mapsto> ProjectorHandle \<lparr>key_ref = fresh w, key_value = ''.0''\<rparr>)\<rparr>"
      and w2: "w2 = w\<lparr>fresh := Suc (Suc (fresh w)), trace := trace w @ [CreateProjector (Suc (fresh w)) (root st)]\<rparr>"
      and pk: "pk = \<lparr>key_ref = fresh w, key_value = ''.0''\<rparr>" and p: "p = Suc (fresh w)"
      by auto
    have 1: "\<forall>v k. Map_get (widgetKeys st2) v = Some k \<longrightarrow> key_ref k < fresh w2"
      using W(1) by (auto simp: st2 w2 less_Suc_eq)
    have 2: "\<forall>v v' k k'. Map_get (widgetKeys st2) v = Some k \<longrightarrow> Map_get (widgetKeys st2) v' = Some k' \<longrightarrow>
        key_ref k = key_ref k' \<longrightarrow> v = v'"
      using W(2) by (simp add: st2)
    have 3: "\<forall>q k. Map_get (projectorKeys st2) q = Some k \<longrightarrow>
        key_ref k < fresh w2 \<and> projectors st2 (key_ref k) \<noteq> None \<and> children st2 (key_ref k) = Some []"
      using W(3) by (auto simp: st2 w2 Map_get_Map_set less_Suc_eq split: if_splits)
    have 4: "\<forall>r\<ge>fresh w2. widgets st2 r = None \<and> handles st2 r = None \<and> projectors st2 r = None"
      using W(4) by (auto simp: st2 w2)
    have 5: "\<forall>v k. Map_get (widgetKeys st2) v = Some k \<longrightarrow> widgets st2 (key_ref k) = None \<longrightarrow>
        handles st2 (key_ref k) = None"
      using W(5) W(1) by (auto simp: st2) (metis less_irrefl)+
    from 1 2 3 4 5 have "wf_state (fresh w2) st2" unfolding wf_state_def by blast
    then show ?thesis by (simp add: st2 w2 pk p Map_get_Map_set)
  qed
  then show "wf_state (fresh w2) st2" "children st2 (key_ref pk) = Some []"
    "projectors st2 (key_ref pk) = Some p" "Map_get (projectorKeys st2) ''.0'' = Some pk"
    "widgetKeys st2 = widgetKeys st" "widgets st2 = widgets st" "root st2 = root st"
    "renderState w2 = renderState w" "projector_children w2 = projector_children w"
    "outstanding w2 = outstanding w" "fresh w \<le> fresh w2"
    "trace w2 = trace w \<or> trace w2 = trace w @ [CreateProjector p (root st)]" by blast+
qed

lemma state_for_wf: "wf_world w \<Longrightarrow> wf_state (fresh w) (state_for registry r w)"
  by (auto simp: state_for_def wf_world_def wf_new_RenderState split: option.splits)

text \<open>The two ways a render of a projector goes in a well-formed world.\<close>

lemma render_cases:
  fixes registry r ws order w
  defines "rid \<equiv> registry_ref registry"
  assumes wf: "wf_state (fresh w) (state_for registry r w)"
  obtains
    (rejected) pk p c1 st2 w2 es sta wa e i stb vs where
      "projector_for (new_Counter []) (state_for registry r w, w) = ((pk, p, c1), (st2, w2))"
      "resolve_children registry ws (st2, w2) = (es, (sta, wa))"
      "settle es (order @ [0..<length es]) (sta, map ready es) = Inl (e, i, stb, vs)"
      "render registry r (SceneProjector ws) order w =
         (Inl e, wa\<lparr>renderState := (renderState wa)(rid \<mapsto> stb),
                     outstanding := outstanding wa @ unsettled rid i 0 es vs\<rparr>)"
  | (fulfilled) pk p c1 st2 w2 es sta wa stb cs where
      "projector_for (new_Counter []) (state_for registry r w, w) = ((pk, p, c1), (st2, w2))"
      "resolve_children registry ws (st2, w2) = (es, (sta, wa))"
      "settle es (order @ [0..<length es]) (sta, map ready es) = Inr (stb, map Some cs)"
      "map fulfilled es = map Some cs"
      "render registry r (SceneProjector ws) order w =
         (Inr (RenderHandle rid),
          wa\<lparr>renderState := (renderState wa)(rid \<mapsto> stb),
             projector_children := (projector_children wa)(p \<mapsto> map widget cs),
             trace := trace wa @ [Attach p]\<rparr>)"
proof -
  let ?st0 = "state_for registry r w"
  obtain pk p c1 st2 w2 where pf: "projector_for (new_Counter []) (?st0, w) = ((pk, p, c1), (st2, w2))"
    by (metis prod.collapse)
  obtain es sta wa where rc: "resolve_children registry ws (st2, w2) = (es, (sta, wa))"
    by (metis prod.collapse)
  note P = projector_for_wf[OF wf pf]
  show ?thesis
  proof (cases "settle es (order @ [0..<length es]) (sta, map ready es)")
    case (Inl a)
    then obtain e i stb vs where
      s: "settle es (order @ [0..<length es]) (sta, map ready es) = Inl (e, i, stb, vs)"
      by (metis prod.collapse)
    with pf rc have "render registry r (SceneProjector ws) order w =
         (Inl e, wa\<lparr>renderState := (renderState wa)(rid \<mapsto> stb),
                     outstanding := outstanding wa @ unsettled rid i 0 es vs\<rparr>)"
      by (simp add: render_def update_def updateProjectorChildren_def state_for_def rid_def)
    with pf rc s rejected show ?thesis by blast
  next
    case (Inr b)
    then obtain stb vs where
      s: "settle es (order @ [0..<length es]) (sta, map ready es) = Inr (stb, vs)"
      by (metis prod.collapse)
    from settle_all[OF s] obtain cs where cs: "vs = map Some cs" "map fulfilled es = map Some cs"
      by blast
    have "children stb = children sta"
      using settle_frame[of es "order @ [0..<length es]" sta "map ready es"] s by simp
    also have "\<dots> = children st2" using resolve_children_frame[OF rc] by simp
    finally have "children stb (key_ref pk) = Some []" using P(2) by simp
    from all_resolved_no_previous[OF this]
    have "render registry r (SceneProjector ws) order w =
         (Inr (RenderHandle rid),
          wa\<lparr>renderState := (renderState wa)(rid \<mapsto> stb),
             projector_children := (projector_children wa)(p \<mapsto> map widget cs),
             trace := trace wa @ [Attach p]\<rparr>)"
      using pf rc s cs
      by (simp add: render_def update_def updateProjectorChildren_def state_for_def rid_def
          those_map_Some attach_def)
    with pf rc s cs fulfilled show ?thesis by blast
  qed
qed

lemma fulfilled_key: "fulfilled e = Some c \<Longrightarrow> entry_key e = key c"
  by (cases e rule: fulfilled.cases) auto

lemma resolve_children_allocated:
  assumes "resolve_children registry ws (st, w) = (es, (st', w'))" "wf_state (fresh w) st"
    "i < length es"
  shows "key_ref (entry_key (es ! i)) < fresh w'"
proof -
  from assms(1) have len: "length es = length ws"
    using resolve_children_length[of registry ws "(st, w)"] by simp
  from resolve_children_keys[OF assms(1)] assms(3) len
  have "Map_get (widgetKeys st') (widget_id (ws ! i)) = Some (entry_key (es ! i))" by simp
  with wf_stateD(1)[OF resolve_children_wf[OF assms(1,2)]] show ?thesis by blast
qed

text \<open>Requests for cached widgets: the map phase returns the cached children and changes
  nothing.\<close>

lemma resolve_children_all_cached:
  assumes "length cs = length ws"
    "\<forall>i<length ws. Map_get (widgetKeys st) (widget_id (ws ! i)) = Some (key (cs ! i)) \<and>
        widgets st (key_ref (key (cs ! i))) = Some (widget (cs ! i))"
  shows "resolve_children registry ws (st, w) = (map Ready cs, (st, w))"
  using assms
proof (induction ws arbitrary: cs)
  case Nil
  then show ?case by simp
next
  case (Cons x xs)
  from Cons.prems(1) obtain c cs' where cs: "cs = c # cs'" by (cases cs) auto
  obtain v where x: "x = SceneWidget v" by (cases x)
  from Cons.prems(2)[rule_format, of 0] have
    h: "Map_get (widgetKeys st) v = Some (key c)" "widgets st (key_ref (key c)) = Some (widget c)"
    by (simp_all add: cs x)
  then have step: "resolve_child registry v (st, w) = (Ready c, (st, w))"
    by (simp add: resolve_child_def Map_has_def)
  have "\<forall>i<length xs. Map_get (widgetKeys st) (widget_id (xs ! i)) = Some (key (cs' ! i)) \<and>
        widgets st (key_ref (key (cs' ! i))) = Some (widget (cs' ! i))"
  proof (intro allI impI)
    fix i assume "i < length xs"
    with Cons.prems(2)[rule_format, of "Suc i"] show
      "Map_get (widgetKeys st) (widget_id (xs ! i)) = Some (key (cs' ! i)) \<and>
        widgets st (key_ref (key (cs' ! i))) = Some (widget (cs' ! i))" by (simp add: cs)
  qed
  with Cons.IH[of cs'] Cons.prems(1) have "resolve_children registry xs (st, w) = (map Ready cs', (st, w))"
    by (simp add: cs)
  with step show ?case by (simp add: x cs)
qed

lemma projector_for_known:
  "Map_get (projectorKeys st) ''.0'' = Some pk \<Longrightarrow> projectors st (key_ref pk) = Some p \<Longrightarrow>
     projector_for (new_Counter []) (st, w) = ((pk, p, \<lparr>prefix = [], count = 1\<rparr>), (st, w))"
  by (simp add: projector_for_def incr_new_Counter Map_has_def)

text \<open>A render all of whose widgets are cached: the projector's children are assigned and
  the projector is attached; nothing else happens.\<close>

lemma render_cache_hit:
  fixes cs :: "Child list"
  assumes "renderState w (registry_ref registry) = Some st"
    "Map_get (projectorKeys st) ''.0'' = Some pk" "projectors st (key_ref pk) = Some p"
    "children st (key_ref pk) = Some []" "length cs = length ws"
    "\<forall>i<length ws. Map_get (widgetKeys st) (widget_id (ws ! i)) = Some (key (cs ! i)) \<and>
        widgets st (key_ref (key (cs ! i))) = Some (widget (cs ! i))"
  shows "render registry r (SceneProjector ws) order w =
     (Inr (RenderHandle (registry_ref registry)),
      w\<lparr>projector_children := (projector_children w)(p \<mapsto> map widget cs),
         trace := trace w @ [Attach p]\<rparr>)"
proof -
  have s: "settle (map Ready cs) (order @ [0..<length cs]) (st, map Some cs) = Inr (st, map Some cs)"
    by (rule settle_nothing) simp
  have m: "map ready (map Ready cs) = map Some cs" by simp
  have i: "(renderState w)(registry_ref registry \<mapsto> st) = renderState w"
    using assms(1) by (simp add: fun_upd_idem)
  show ?thesis
    using assms(1) projector_for_known[OF assms(2,3)] resolve_children_all_cached[OF assms(5,6)]
      all_resolved_no_previous[OF assms(4)] s i
    by (simp add: render_def update_def updateProjectorChildren_def those_map_Some attach_def m
        del: map_map)
qed

lemma count_le_1_distinct: "(\<forall>v. count_list xs v \<le> 1) \<Longrightarrow> distinct xs"
proof (induction xs)
  case Nil
  then show ?case by simp
next
  case (Cons x xs)
  have "\<forall>v. count_list xs v \<le> 1"
  proof
    fix v from Cons.prems[rule_format, of v] show "count_list xs v \<le> 1" by (simp split: if_splits)
  qed
  with Cons.IH have "distinct xs" by blast
  moreover from Cons.prems[rule_format, of x] have "count_list xs x = 0" by simp
  then have "x \<notin> set xs" by (simp add: count_list_0_iff)
  ultimately show ?case by simp
qed

lemma count_list_map_widget_id: "count_list (map widget_id ws) v = count_list ws (SceneWidget v)"
proof (induction ws)
  case Nil
  then show ?case by simp
next
  case (Cons x xs)
  obtain u where "x = SceneWidget u" by (cases x)
  with Cons show ?case by simp
qed

lemma distinct_count_le_1: "distinct xs \<Longrightarrow> count_list xs v \<le> 1"
  by (induction xs) (auto simp: count_list_0_iff)

lemma unsettled_keys:
  "(r', k, outcome) \<in> set (unsettled r i j es vs) \<Longrightarrow> \<exists>n<length es. entry_key (es ! n) = k"
proof (induction es arbitrary: j vs)
  case Nil
  then show ?case by simp
next
  case (Cons e es)
  show ?case
  proof (cases e)
    case (Ready c)
    with Cons.prems have "(r', k, outcome) \<in> set (unsettled r i (Suc j) es (tl vs))" by simp
    from Cons.IH[OF this] show ?thesis by auto
  next
    case (Promised k' outcome')
    with Cons.prems have "k' = k \<or> (r', k, outcome) \<in> set (unsettled r i (Suc j) es (tl vs))"
      by (auto split: if_splits)
    then show ?thesis
    proof
      assume "k' = k"
      with Promised have "entry_key ((e # es) ! 0) = k" by simp
      then show ?thesis by blast
    next
      assume "(r', k, outcome) \<in> set (unsettled r i (Suc j) es (tl vs))"
      from Cons.IH[OF this] show ?thesis by auto
    qed
  qed
qed

lemma settled_state_wf:
  assumes "resolve_children registry ws (st, w) = (es, (sta, wa))" "wf_state (fresh w) st"
  shows "wf_state (fresh wa) (settled_state (settle es order (sta, vs)))"
proof (rule settle_wf)
  show "wf_state (fresh wa) sta" using resolve_children_wf[OF assms] .
  show "\<forall>i<length es. key_ref (entry_key (es ! i)) < fresh wa"
    using resolve_children_allocated[OF assms] by blast
qed

text \<open>Rendering keeps the world well-formed.\<close>

lemma render_wf:
  assumes wf: "wf_world w"
  shows "wf_world (snd (render registry r tree order w))"
proof (cases tree)
  case (SceneWidgetElement sw)
  with wf show ?thesis by (simp add: render_def)
next
  case (SceneProjector ws)
  let ?rid = "registry_ref registry"
  have main: "\<And>pk p c1 st2 w2 es sta wa stb (w'::World).
    projector_for (new_Counter []) (state_for registry r w, w) = ((pk, p, c1), (st2, w2)) \<Longrightarrow>
    resolve_children registry ws (st2, w2) = (es, (sta, wa)) \<Longrightarrow>
    stb = settled_state (settle es (order @ [0..<length es]) (sta, map ready es)) \<Longrightarrow>
    renderState w' = (renderState wa)(?rid \<mapsto> stb) \<Longrightarrow> fresh w' = fresh wa \<Longrightarrow>
    (\<forall>x \<in> set (outstanding w'). x \<in> set (outstanding wa) \<or> (\<exists>n<length es. entry_key (es ! n) = fst (snd x))) \<Longrightarrow>
    wf_world w'"
  proof -
    fix pk p c1 st2 w2 es sta wa stb and w' :: World
    assume pf: "projector_for (new_Counter []) (state_for registry r w, w) = ((pk, p, c1), (st2, w2))"
      and rc: "resolve_children registry ws (st2, w2) = (es, (sta, wa))"
      and stb: "stb = settled_state (settle es (order @ [0..<length es]) (sta, map ready es))"
      and rs: "renderState w' = (renderState wa)(?rid \<mapsto> stb)" and fr: "fresh w' = fresh wa"
      and out: "\<forall>x \<in> set (outstanding w'). x \<in> set (outstanding wa) \<or> (\<exists>n<length es. entry_key (es ! n) = fst (snd x))"
    note P = projector_for_wf[OF state_for_wf[OF wf] pf]
    note F = resolve_children_frame[OF rc]
    have le: "fresh w \<le> fresh wa" using P(11) F by simp
    have wfb: "wf_state (fresh wa) stb" unfolding stb by (rule settled_state_wf[OF rc P(1)])
    have 1: "\<forall>r' st. renderState w' r' = Some st \<longrightarrow> wf_state (fresh w') st"
    proof (intro allI impI)
      fix r' st assume a: "renderState w' r' = Some st"
      show "wf_state (fresh w') st"
      proof (cases "r' = ?rid")
        case True
        with a rs wfb fr show ?thesis by simp
      next
        case False
        with a rs F P(8) have "renderState w r' = Some st" by simp
        with wf have "wf_state (fresh w) st" by (simp add: wf_world_def)
        with le fr show ?thesis by (simp add: wf_state_mono)
      qed
    qed
    have 2: "\<forall>r' k outcome. (r', k, outcome) \<in> set (outstanding w') \<longrightarrow> key_ref k < fresh w'"
    proof (intro allI impI)
      fix r' k outcome assume a: "(r', k, outcome) \<in> set (outstanding w')"
      with out have "(r', k, outcome) \<in> set (outstanding wa) \<or> (\<exists>n<length es. entry_key (es ! n) = k)"
        by fastforce
      then show "key_ref k < fresh w'"
      proof
        assume "(r', k, outcome) \<in> set (outstanding wa)"
        with F P(10) have "(r', k, outcome) \<in> set (outstanding w)" by simp
        with wf have "key_ref k < fresh w" unfolding wf_world_def by blast
        with le fr show ?thesis by simp
      next
        assume "\<exists>n<length es. entry_key (es ! n) = k"
        with resolve_children_allocated[OF rc P(1)] fr show ?thesis by auto
      qed
    qed
    from 1 2 show "wf_world w'" by (simp add: wf_world_def)
  qed
  from state_for_wf[OF wf] show ?thesis
  proof (cases rule: render_cases[where registry=registry and r=r and ws=ws and order=order and w=w])
    case (rejected pk p c1 st2 w2 es sta wa e i stb vs)
    show ?thesis
      unfolding SceneProjector rejected(4)
    proof (simp, rule main[OF rejected(1,2)])
      show "stb = settled_state (settle es (order @ [0..<length es]) (sta, map ready es))"
        using rejected(3) by simp
      show "\<forall>x\<in>set (outstanding (wa\<lparr>renderState := (renderState wa)(?rid \<mapsto> stb),
                     outstanding := outstanding wa @ unsettled ?rid i 0 es vs\<rparr>)).
         x \<in> set (outstanding wa) \<or> (\<exists>n<length es. entry_key (es ! n) = fst (snd x))"
        using unsettled_keys by fastforce
    qed simp_all
  next
    case (fulfilled pk p c1 st2 w2 es sta wa stb cs)
    show ?thesis
      unfolding SceneProjector fulfilled(5)
    proof (simp, rule main[OF fulfilled(1,2)])
      show "stb = settled_state (settle es (order @ [0..<length es]) (sta, map ready es))"
        using fulfilled(3) by simp
    qed simp_all
  qed
qed

lemma requests_Attach: "requests r (xs @ [Attach p]) = requests r xs"
  by (simp add: requests_append)

text \<open>A render asks the registry for an identifier without a cached instance once for each
  of its occurrences among the requested widgets.\<close>

lemma render_requests_uncached:
  assumes wf: "wf_world w" and u: "uncached (state_for registry r w) v"
  shows "count_list (requests (registry_ref registry) (trace (snd (render registry r (SceneProjector ws) order w)))) v =
         count_list (requests (registry_ref registry) (trace w)) v + count_list ws (SceneWidget v)"
proof -
  let ?rid = "registry_ref registry"
  have main: "\<And>pk p c1 st2 w2 es sta wa.
    projector_for (new_Counter []) (state_for registry r w, w) = ((pk, p, c1), (st2, w2)) \<Longrightarrow>
    resolve_children registry ws (st2, w2) = (es, (sta, wa)) \<Longrightarrow>
    count_list (requests ?rid (trace wa)) v = count_list (requests ?rid (trace w)) v + count_list ws (SceneWidget v)"
  proof -
    fix pk p c1 st2 w2 es sta wa
    assume pf: "projector_for (new_Counter []) (state_for registry r w, w) = ((pk, p, c1), (st2, w2))"
      and rc: "resolve_children registry ws (st2, w2) = (es, (sta, wa))"
    note P = projector_for_wf[OF state_for_wf[OF wf] pf]
    have u2: "uncached st2 v" using u P(5,6) by (simp add: uncached_def split: option.splits)
    have "\<forall>r\<ge>fresh w2. widgets st2 r = None" using wf_stateD(4)[OF P(1)] by blast
    from resolve_children_uncached[OF rc u2 this] obtain new where
      new: "trace wa = trace w2 @ map (GetWidget ?rid) new"
        "count_list new v = count_list (map widget_id ws) v" by blast
    have "requests ?rid (trace w2) = requests ?rid (trace w)"
      using P(12) by (auto simp: requests_append)
    with new show "count_list (requests ?rid (trace wa)) v =
        count_list (requests ?rid (trace w)) v + count_list ws (SceneWidget v)"
      by (simp add: requests_append requests_GetWidget count_list_map_widget_id)
  qed
  from state_for_wf[OF wf] show ?thesis
  proof (cases rule: render_cases[where registry=registry and r=r and ws=ws and order=order and w=w])
    case (rejected pk p c1 st2 w2 es sta wa e i stb vs)
    from main[OF rejected(1,2)] show ?thesis by (simp add: rejected(4))
  next
    case (fulfilled pk p c1 st2 w2 es sta wa stb cs)
    from main[OF fulfilled(1,2)] show ?thesis by (simp add: fulfilled(5) requests_append)
  qed
qed






text \<open>Settling touches the handles of the settled keys only.\<close>

lemma settle_handles_other:
  "\<forall>i<length es. key_ref (entry_key (es ! i)) \<noteq> r \<Longrightarrow>
     handles (settled_state (settle es order (st, vs))) r = handles st r"
proof (induction order arbitrary: st vs)
  case Nil
  then show ?case by simp
next
  case (Cons i order)
  from settle_Cons[of es i order st vs] show ?case
  proof (elim disjE exE conjE)
    assume "settle es (i # order) (st, vs) = settle es order (st, vs)"
    with Cons.IH[of st vs] Cons.prems show ?thesis by simp
  next
    fix k wd
    assume a: "i < length es" "es ! i = Promised k (Inr wd)"
      "settle es (i # order) (st, vs) = settle es order (resolved k wd st, vs[i := Some \<lparr>key = k, widget = wd\<rparr>])"
    with Cons.prems have "key_ref k \<noteq> r" by fastforce
    with Cons.IH[of "resolved k wd st" "vs[i := Some \<lparr>key = k, widget = wd\<rparr>]"] Cons.prems a(3)
    show ?thesis by (simp add: resolved_def)
  next
    fix k e
    assume "settle es (i # order) (st, vs) = Inl (e, i, st, vs)"
    then show ?thesis by simp
  qed
qed

lemma wf_state_fewer_keys:
  assumes wf: "wf_state n st"
    and wk: "\<And>v k. Map_get (widgetKeys st') v = Some k \<Longrightarrow> Map_get (widgetKeys st) v = Some k"
    and pk: "\<And>p k. Map_get (projectorKeys st') p = Some k \<Longrightarrow> Map_get (projectorKeys st) p = Some k"
    and same: "widgets st' = widgets st" "handles st' = handles st" "projectors st' = projectors st"
      "children st' = children st"
  shows "wf_state n st'"
proof -
  note W = wf_stateD[OF wf]
  have 1: "\<forall>v k. Map_get (widgetKeys st') v = Some k \<longrightarrow> key_ref k < n"
    using W(1) wk by blast
  have 2: "\<forall>v v' k k'. Map_get (widgetKeys st') v = Some k \<longrightarrow> Map_get (widgetKeys st') v' = Some k' \<longrightarrow>
        key_ref k = key_ref k' \<longrightarrow> v = v'"
  proof (intro allI impI)
    fix v v' k k'
    assume "Map_get (widgetKeys st') v = Some k" "Map_get (widgetKeys st') v' = Some k'"
      "key_ref k = key_ref k'"
    then show "v = v'" using W(2)[OF wk wk] by blast
  qed
  have 3: "\<forall>p k. Map_get (projectorKeys st') p = Some k \<longrightarrow>
        key_ref k < n \<and> projectors st' (key_ref k) \<noteq> None \<and> children st' (key_ref k) = Some []"
    using W(3) pk same by metis
  have 4: "\<forall>r\<ge>n. widgets st' r = None \<and> handles st' r = None \<and> projectors st' r = None"
    using W(4) same by simp
  have 5: "\<forall>v k. Map_get (widgetKeys st') v = Some k \<longrightarrow> widgets st' (key_ref k) = None \<longrightarrow>
        handles st' (key_ref k) = None"
    using W(5) wk same by metis
  from 1 2 3 4 5 show ?thesis unfolding wf_state_def by blast
qed

lemma settled_values_complete:
  "settle es (order @ [0..<length es]) (st, map ready es) = Inr (st', vs) \<Longrightarrow> those vs \<noteq> None"
  using settle_all those_map_Some by fastforce

lemma Map_get_Map_deleteD: "Map_get (Map_delete k m) k' = Some x \<Longrightarrow> Map_get m k' = Some x"
  by (simp add: Map_get_Map_delete split: if_splits)

lemma destroy_wf:
  assumes "wf_state n st" "destroy h (st, w) = (st', w')"
  shows "wf_state n st'" "renderState w' = renderState w" "fresh w' = fresh w"
    "outstanding w' = outstanding w"
proof -
  show "wf_state n st'"
  proof (cases h)
    case (ProjectorHandle k)
    with assms(2) have st': "st' = st\<lparr>projectorKeys := Map_delete (key_value k) (projectorKeys st)\<rparr>"
      by auto
    show ?thesis
      by (rule wf_state_fewer_keys[OF assms(1)]) (auto simp: st' dest: Map_get_Map_deleteD)
  next
    case (WidgetHandle wd k)
    with assms(2) have st': "st' = st\<lparr>widgetKeys := Map_delete (key_value k) (widgetKeys st)\<rparr>"
      by auto
    show ?thesis
      by (rule wf_state_fewer_keys[OF assms(1)]) (auto simp: st' dest: Map_get_Map_deleteD)
  qed
  show "renderState w' = renderState w" "fresh w' = fresh w" "outstanding w' = outstanding w"
    using assms(2) by (cases h; auto)+
qed

lemma invoke_handle_wf:
  assumes "wf_state n st" "invoke_handle k (st, w) = (res, (st', w'))"
  shows "wf_state n st' \<and> renderState w' = renderState w \<and> fresh w' = fresh w \<and>
    outstanding w' = outstanding w"
proof (cases "handles st (key_ref k)")
  case None
  with assms show ?thesis by (simp add: invoke_handle_def)
next
  case (Some h)
  with assms(2) have "destroy h (st, w) = (st', w')" by (simp add: invoke_handle_def)
  from destroy_wf[OF assms(1) this] show ?thesis by simp
qed

lemma forEach_destroy_wf:
  assumes "wf_state n st" "forEach_destroy m entries (st, w) = (st', w')"
  shows "wf_state n st' \<and> renderState w' = renderState w \<and> fresh w' = fresh w \<and>
    outstanding w' = outstanding w"
  using assms
proof (induction entries arbitrary: st w)
  case Nil
  then show ?case by simp
next
  case (Cons x entries)
  obtain name k where x: "x = (name, k)" by (cases x)
  show ?case
  proof (cases "(name, k) \<in> set (m st) \<and> handles st (key_ref k) \<noteq> None")
    case True
    obtain res st1 w1 where i: "invoke_handle k (st, w) = (res, (st1, w1))"
      by (metis prod.collapse)
    with True Cons.prems(2) x have "forEach_destroy m entries (st1, w1) = (st', w')" by simp
    from Cons.IH[OF _ this] invoke_handle_wf[OF Cons.prems(1) i] show ?thesis by simp
  next
    case False
    with Cons.prems(2) x have "forEach_destroy m entries (st, w) = (st', w')" by auto
    from Cons.IH[OF Cons.prems(1) this] show ?thesis .
  qed
qed

text \<open>The render handle's \<open>destroy\<close> keeps the world well-formed.\<close>

lemma destroy_RenderHandle_wf:
  assumes "wf_world w"
  shows "wf_world (destroy_RenderHandle h w)"
proof -
  obtain r where h: "h = RenderHandle r" by (cases h)
  show ?thesis
  proof (cases "renderState w r")
    case None
    with assms h show ?thesis by (simp add: destroy_RenderHandle_def)
  next
    case (Some st)
    with assms have wf: "wf_state (fresh w) st" by (simp add: wf_world_def)
    obtain st1 w1 where s1: "forEach_destroy projectorKeys (projectorKeys st) (st, w) = (st1, w1)"
      by (metis prod.collapse)
    obtain st2 w2 where s2: "forEach_destroy widgetKeys (widgetKeys st1) (st1, w1) = (st2, w2)"
      by (metis prod.collapse)
    from forEach_destroy_wf[OF wf s1] have 1: "wf_state (fresh w) st1" "renderState w1 = renderState w"
      "fresh w1 = fresh w" "outstanding w1 = outstanding w" by simp_all
    from forEach_destroy_wf[OF 1(1) s2] 1 have 2: "wf_state (fresh w) st2" "renderState w2 = renderState w"
      "fresh w2 = fresh w" "outstanding w2 = outstanding w" by simp_all
    have d: "destroy_RenderHandle h w = w2\<lparr>renderState := (renderState w2)(r \<mapsto> st2)\<rparr>"
      using Some s1 s2 by (simp add: destroy_RenderHandle_def h)
    show ?thesis
      unfolding d using assms 2 by (auto simp: wf_world_def)
  qed
qed


subsection \<open>The child collection, position by position\<close>

lemma resolve_child_step:
  assumes "resolve_child registry v (st, w) = (e, (st1, w1))" "\<forall>r\<ge>fresh w. widgets st r = None"
  shows "\<forall>u. uncached st1 u = uncached st u" "\<forall>r\<ge>fresh w1. widgets st1 r = None"
    "requests (registry_ref registry) (trace w1) =
       requests (registry_ref registry) (trace w) @ (if uncached st v then [v] else [])"
    "uncached st v \<longrightarrow>
       (\<exists>k. e = Promised k (getWidget registry (requests (registry_ref registry) (trace w)) v))"
    "\<not> uncached st v \<longrightarrow>
       (\<exists>k wd. e = Ready \<lparr>key = k, widget = wd\<rparr> \<and> Map_get (widgetKeys st) v = Some k \<and>
          widgets st (key_ref k) = Some wd)"
    "\<forall>u k. Map_get (widgetKeys st1) u = Some k \<longrightarrow> widgets st (key_ref k) \<noteq> None \<longrightarrow>
       Map_get (widgetKeys st) u = Some k"
  using assms
  by (cases rule: resolve_child_cases[where st=st and v=v and w=w and registry=registry];
      auto simp: uncached_def Map_get_Map_set requests_append split: option.splits if_splits)+

lemma asked_before_Cons:
  "asked_before st (x # xs) (Suc j) = (if uncached st (widget_id x) then [widget_id x] else []) @ asked_before st xs j"
  by (simp add: asked_before_def)

lemma asked_before_cong: "\<forall>u. uncached st1 u = uncached st u \<Longrightarrow> asked_before st1 ws i = asked_before st ws i"
  by (simp add: asked_before_def cong: filter_cong)

text \<open>What the map phase makes of each request, told from the state it starts in.\<close>

lemma resolve_children_entry:
  assumes "resolve_children registry ws (st, w) = (es, (st', w'))" "\<forall>r\<ge>fresh w. widgets st r = None"
    "i < length ws"
  shows "(uncached st (widget_id (ws ! i)) \<longrightarrow>
           (\<exists>k. es ! i = Promised k (getWidget registry
              (requests (registry_ref registry) (trace w) @ asked_before st ws i) (widget_id (ws ! i))))) \<and>
         (\<not> uncached st (widget_id (ws ! i)) \<longrightarrow>
           (\<exists>k wd. es ! i = Ready \<lparr>key = k, widget = wd\<rparr> \<and>
              Map_get (widgetKeys st) (widget_id (ws ! i)) = Some k \<and> widgets st (key_ref k) = Some wd))"
  using assms
proof (induction ws arbitrary: st w es i)
  case Nil
  then show ?case by simp
next
  case (Cons x xs)
  from Cons.prems(1) obtain e es1 st1 w1 where
    a: "resolve_child registry (widget_id x) (st, w) = (e, (st1, w1))" and
    b: "resolve_children registry xs (st1, w1) = (es1, (st', w'))" and es: "es = e # es1"
    by (rule resolve_children_ConsE)
  note S = resolve_child_step[OF a Cons.prems(2)]
  show ?case
  proof (cases i)
    case 0
    with S(4,5) es show ?thesis by (simp add: asked_before_def)
  next
    case (Suc j)
    with Cons.prems(3) have j: "j < length xs" by simp
    note IH = Cons.IH[OF b S(2) j]
    have u: "uncached st1 (widget_id (xs ! j)) = uncached st (widget_id (xs ! j))" using S(1) by simp
    have ab: "requests (registry_ref registry) (trace w1) @ asked_before st1 xs j =
        requests (registry_ref registry) (trace w) @ asked_before st (x # xs) (Suc j)"
      using S(3) asked_before_cong[OF S(1)] by (simp add: asked_before_Cons)
    have w: "widgets st1 = widgets st" using resolve_child_frame(1)[OF a] .
    show ?thesis
    proof (cases "uncached st (widget_id (xs ! j))")
      case True
      with IH u ab show ?thesis by (simp add: Suc es)
    next
      case False
      with IH u obtain k wd where r: "es1 ! j = Ready \<lparr>key = k, widget = wd\<rparr>"
        "Map_get (widgetKeys st1) (widget_id (xs ! j)) = Some k" "widgets st1 (key_ref k) = Some wd"
        by auto
      with S(6) w have "Map_get (widgetKeys st) (widget_id (xs ! j)) = Some k" by simp
      with r w False show ?thesis by (simp add: Suc es)
    qed
  qed
qed

text \<open>The child collection of a successful render, position by position: the cached instance
  of the identifier, or else what the registry returned to the call made for this
  position.\<close>

lemma render_children:
  assumes wf: "wf_world w"
    and ok: "render registry r (SceneProjector ws) order w = (Inr h, w')"
  shows "\<exists>p wl. last (trace w') = Attach p \<and> projector_children w' p = Some wl \<and>
           length wl = length ws \<and>
           (\<forall>i<length ws.
              if uncached (state_for registry r w) (widget_id (ws ! i))
              then getWidget registry
                     (requests (registry_ref registry) (trace w) @ asked_before (state_for registry r w) ws i)
                     (widget_id (ws ! i)) = Inr (wl ! i)
              else \<exists>k. Map_get (widgetKeys (state_for registry r w)) (widget_id (ws ! i)) = Some k \<and>
                     widgets (state_for registry r w) (key_ref k) = Some (wl ! i))"
  using state_for_wf[OF wf]
proof (cases rule: render_cases[where registry=registry and r=r and ws=ws and order=order and w=w])
  case (rejected pk p c1 st2 w2 es sta wa e i stb vs)
  with ok show ?thesis by simp
next
  case (fulfilled pk p c1 st2 w2 es sta wa stb cs)
  let ?rid = "registry_ref registry"
  let ?st0 = "state_for registry r w"
  note P = projector_for_wf[OF state_for_wf[OF wf] fulfilled(1)]
  have n: "\<forall>r\<ge>fresh w2. widgets st2 r = None" using wf_stateD(4)[OF P(1)] by blast
  have req: "requests ?rid (trace w2) = requests ?rid (trace w)"
    using P(12) by (auto simp: requests_append)
  have unc: "\<forall>u. uncached st2 u = uncached ?st0 u"
    using P(5,6) by (simp add: uncached_def split: option.splits)
  have len: "length es = length ws"
    using resolve_children_length[of registry ws "(st2, w2)"] fulfilled(2) by simp
  have lcs: "length cs = length ws" using fulfilled(4) len by (metis length_map)
  have fu: "\<And>i. i < length ws \<Longrightarrow> fulfilled (es ! i) = Some (cs ! i)"
    using fulfilled(4) len lcs by (metis length_map nth_map)
  have pos: "\<forall>i<length ws.
              if uncached ?st0 (widget_id (ws ! i))
              then getWidget registry (requests ?rid (trace w) @ asked_before ?st0 ws i)
                     (widget_id (ws ! i)) = Inr (map widget cs ! i)
              else \<exists>k. Map_get (widgetKeys ?st0) (widget_id (ws ! i)) = Some k \<and>
                     widgets ?st0 (key_ref k) = Some (map widget cs ! i)"
  proof (intro allI impI)
    fix i assume i: "i < length ws"
    note E = resolve_children_entry[OF fulfilled(2) n i]
    show "if uncached ?st0 (widget_id (ws ! i))
          then getWidget registry (requests ?rid (trace w) @ asked_before ?st0 ws i)
                 (widget_id (ws ! i)) = Inr (map widget cs ! i)
          else \<exists>k. Map_get (widgetKeys ?st0) (widget_id (ws ! i)) = Some k \<and>
                 widgets ?st0 (key_ref k) = Some (map widget cs ! i)"
    proof (cases "uncached ?st0 (widget_id (ws ! i))")
      case True
      with E unc req asked_before_cong[OF unc] obtain k where
        "es ! i = Promised k (getWidget registry (requests ?rid (trace w) @ asked_before ?st0 ws i)
            (widget_id (ws ! i)))" by auto
      with fu[OF i] obtain b where "getWidget registry (requests ?rid (trace w) @ asked_before ?st0 ws i)
            (widget_id (ws ! i)) = Inr b" "cs ! i = \<lparr>key = k, widget = b\<rparr>"
        by (cases "getWidget registry (requests ?rid (trace w) @ asked_before ?st0 ws i) (widget_id (ws ! i))") auto
      then have "getWidget registry (requests ?rid (trace w) @ asked_before ?st0 ws i)
            (widget_id (ws ! i)) = Inr (widget (cs ! i))" by simp
      with True i lcs show ?thesis by simp
    next
      case False
      with E unc obtain k wd where "es ! i = Ready \<lparr>key = k, widget = wd\<rparr>"
        "Map_get (widgetKeys st2) (widget_id (ws ! i)) = Some k" "widgets st2 (key_ref k) = Some wd"
        by auto
      moreover from this fu[OF i] have "cs ! i = \<lparr>key = k, widget = wd\<rparr>" by simp
      ultimately have "Map_get (widgetKeys ?st0) (widget_id (ws ! i)) = Some k \<and>
                 widgets ?st0 (key_ref k) = Some (widget (cs ! i))" using P(5,6) by simp
      with False i lcs show ?thesis by auto
    qed
  qed
  from fulfilled(5) ok have w': "w' = wa\<lparr>renderState := (renderState wa)(?rid \<mapsto> stb),
             projector_children := (projector_children wa)(p \<mapsto> map widget cs),
             trace := trace wa @ [Attach p]\<rparr>" by simp
  have "last (trace w') = Attach p \<and> projector_children w' p = Some (map widget cs) \<and>
        length (map widget cs) = length ws"
    by (simp add: w' lcs)
  with pos show ?thesis by blast
qed

text \<open>A render every call of which is fulfilled succeeds.\<close>

lemma render_succeeds:
  assumes wf: "wf_world w"
    and ok: "\<forall>i<length ws. uncached (state_for registry r w) (widget_id (ws ! i)) \<longrightarrow>
        \<not> isl (getWidget registry
               (requests (registry_ref registry) (trace w) @ asked_before (state_for registry r w) ws i)
               (widget_id (ws ! i)))"
  shows "\<exists>w'. render registry r (SceneProjector ws) order w = (Inr (RenderHandle (registry_ref registry)), w')"
  using state_for_wf[OF wf]
proof (cases rule: render_cases[where registry=registry and r=r and ws=ws and order=order and w=w])
  case (fulfilled pk p c1 st2 w2 es sta wa stb cs)
  then show ?thesis by simp
next
  case (rejected pk p c1 st2 w2 es sta wa e i stb vs)
  let ?rid = "registry_ref registry"
  let ?st0 = "state_for registry r w"
  note P = projector_for_wf[OF state_for_wf[OF wf] rejected(1)]
  note rc = rejected(2)
  have n: "\<forall>r\<ge>fresh w2. widgets st2 r = None" using wf_stateD(4)[OF P(1)] by blast
  have req: "requests ?rid (trace w2) = requests ?rid (trace w)"
    using P(12) by (auto simp: requests_append)
  have unc: "\<forall>u. uncached st2 u = uncached ?st0 u"
    using P(5,6) by (simp add: uncached_def split: option.splits)
  have len: "length es = length ws"
    using resolve_children_length[of registry ws "(st2, w2)"] rc by simp
  from settle_rejected[OF rejected(3)] obtain ki where i: "i < length es" "es ! i = Promised ki (Inl e)"
    by blast
  have iw: "i < length ws" using i len by simp
  from resolve_children_entry[OF rc n iw] have E:
      "(uncached ?st0 (widget_id (ws ! i)) \<longrightarrow>
           (\<exists>k. es ! i = Promised k (getWidget registry
              (requests ?rid (trace w) @ asked_before ?st0 ws i) (widget_id (ws ! i))))) \<and>
      (\<not> uncached ?st0 (widget_id (ws ! i)) \<longrightarrow> (\<exists>c. es ! i = Ready c))"
    unfolding req asked_before_cong[OF unc] unc[rule_format] by blast
  have ui: "uncached ?st0 (widget_id (ws ! i))"
  proof (rule ccontr)
    assume "\<not> uncached ?st0 (widget_id (ws ! i))"
    with E i(2) show False by auto
  qed
  with E i(2) have
    "getWidget registry (requests ?rid (trace w) @ asked_before ?st0 ws i) (widget_id (ws ! i)) = Inl e"
    by auto
  with ok iw ui have False by auto
  then show ?thesis ..
qed

subsection \<open>Promises that settle before a rejection\<close>





subsection \<open>What a render never does\<close>

text \<open>In a well-formed world a render destroys nothing, whatever was rendered before: the
  calls it makes are those of the registry, of \<^verbatim>\<open>createProjector\<close> and of \<^verbatim>\<open>attach\<close>.\<close>

lemma render_destroys_nothing:
  assumes wf: "wf_world w"
  shows "\<exists>new. trace (snd (render registry r (SceneProjector ws) order w)) = trace w @ new \<and>
           (\<forall>x. WidgetDestroy x \<notin> set new \<and> ProjectorDestroy x \<notin> set new)"
  using state_for_wf[OF wf]
proof (cases rule: render_cases[where registry=registry and r=r and ws=ws and order=order and w=w])
  case (rejected pk p c1 st2 w2 es sta wa e i stb vs)
  note P = projector_for_wf[OF state_for_wf[OF wf] rejected(1)]
  from resolve_children_trace[OF rejected(2)] obtain new where
    n: "trace wa = trace w2 @ map (GetWidget (registry_ref registry)) new" by blast
  from P(12) n rejected(4) show ?thesis by auto
next
  case (fulfilled pk p c1 st2 w2 es sta wa stb cs)
  note P = projector_for_wf[OF state_for_wf[OF wf] fulfilled(1)]
  from resolve_children_trace[OF fulfilled(2)] obtain new where
    n: "trace wa = trace w2 @ map (GetWidget (registry_ref registry)) new" by blast
  from P(12) n fulfilled(5) show ?thesis by auto
qed

text \<open>After a render the entry of \<^verbatim>\<open>children\<close> for a projector's key is the empty list.\<close>

lemma children_entry_stays_empty:
  assumes wf: "wf_world w"
    and st: "renderState (snd (render registry r tree order w)) r' = Some st"
    and k: "Map_get (projectorKeys st) p = Some k"
  shows "children st (key_ref k) = Some []"
  using render_wf[OF wf, of registry r tree order] st k
  unfolding wf_world_def by (meson wf_stateD(3))

subsection \<open>Late resolutions\<close>

lemma settle_outstanding_eq:
  "settle_outstanding n w = w \<or>
   (\<exists>r k oc. n < length (outstanding w) \<and> outstanding w ! n = (r, k, oc) \<and>
      (settle_outstanding n w = w\<lparr>outstanding := take n (outstanding w) @ drop (Suc n) (outstanding w)\<rparr> \<or>
       (\<exists>wd st. oc = Inr wd \<and> renderState w r = Some st \<and>
          settle_outstanding n w =
            w\<lparr>outstanding := take n (outstanding w) @ drop (Suc n) (outstanding w),
              renderState := (renderState w)(r \<mapsto> resolved k wd st)\<rparr>)))"
  by (cases "outstanding w ! n")
     (auto simp: settle_outstanding_def Let_def split: sum.splits option.splits)

lemma rest_subset: "set (take n xs @ drop (Suc n) xs) \<subseteq> set xs"
  by (auto dest: in_set_takeD in_set_dropD)

lemma settle_outstanding_frame:
  "trace (settle_outstanding n w) = trace w \<and>
   projector_children (settle_outstanding n w) = projector_children w \<and>
   fresh (settle_outstanding n w) = fresh w \<and>
   set (outstanding (settle_outstanding n w)) \<subseteq> set (outstanding w)"
  using settle_outstanding_eq[of n w] rest_subset[of n "outstanding w"] by auto

lemma settle_outstanding_other:
  assumes "no_pending registry w"
  shows "renderState (settle_outstanding n w) (registry_ref registry) = renderState w (registry_ref registry)"
    and "no_pending registry (settle_outstanding n w)"
proof -
  have np: "\<And>x. x \<in> set (outstanding w) \<Longrightarrow> fst x \<noteq> registry_ref registry"
    using assms by (simp add: no_pending_def list_all_iff)
  from settle_outstanding_eq[of n w]
  show "renderState (settle_outstanding n w) (registry_ref registry) = renderState w (registry_ref registry)"
  proof (elim disjE exE conjE)
    fix r k oc wd st
    assume a: "n < length (outstanding w)" "outstanding w ! n = (r, k, oc)"
      and s: "settle_outstanding n w =
            w\<lparr>outstanding := take n (outstanding w) @ drop (Suc n) (outstanding w),
              renderState := (renderState w)(r \<mapsto> resolved k wd st)\<rparr>"
    from a have "(r, k, oc) \<in> set (outstanding w)" by (metis nth_mem)
    from np[OF this] have "r \<noteq> registry_ref registry" by simp
    with s show ?thesis by simp
  qed simp_all
  from settle_outstanding_frame[of n w] np
  show "no_pending registry (settle_outstanding n w)"
    by (auto simp: no_pending_def list_all_iff)
qed

lemma settle_later_other:
  "no_pending registry w \<Longrightarrow>
     renderState (settle_later ns w) (registry_ref registry) = renderState w (registry_ref registry) \<and>
     no_pending registry (settle_later ns w) \<and>
     trace (settle_later ns w) = trace w \<and>
     projector_children (settle_later ns w) = projector_children w"
proof (induction ns arbitrary: w)
  case Nil
  then show ?case by (simp add: settle_later_def)
next
  case (Cons n ns)
  from settle_outstanding_other[OF Cons.prems, of n] settle_outstanding_frame[of n w]
    Cons.IH[of "settle_outstanding n w"]
  show ?case by (simp add: settle_later_def)
qed





section \<open>Malformed scenes\<close>

text \<open>C5: a tree that is no SceneProjector is rejected at once, with the error of line 66,
  and the world is left as it was: no render state is created or registered, no Key is
  allocated and no call is made on a collaborator.\<close>

theorem render_rejects_non_projector:
  "render registry r (SceneWidgetElement sw) order w =
     (Inl (Error ''Tree must start with a SceneProjector for now, sorry''), w)"
  by (simp add: render_def)

section \<open>Order of the children\<close>

text \<open>C6: whenever a reconciliation of a child list succeeds, whatever the order in which the
  registry's promises settled, the projector's child collection has one widget for each
  requested widget, and at position \<^verbatim>\<open>i\<close> it holds the widget that the \<^verbatim>\<open>i\<close>-th request
  resolved to: the cached instance, or the value of the promise made for that request
  (in the state left by the requests before it).\<close>

theorem children_in_requested_order:
  assumes "updateProjectorChildren registry counter projectorKey projector ws order s = (Inr u, s')"
  shows "\<exists>cs. projector_children (snd s') projector = Some (map widget cs) \<and> length cs = length ws \<and>
           (\<forall>i<length ws. fulfilled (fst (resolve_child registry (widget_id (ws ! i))
                               (snd (resolve_children registry (take i ws) s)))) = Some (cs ! i))"
proof -
  obtain es st1 w1 where rc: "resolve_children registry ws s = (es, (st1, w1))"
    by (metis prod.collapse)
  from assms rc obtain st2 vs where
    st: "settle es (order @ [0..<length es]) (st1, map ready es) = Inr (st2, vs)"
    by (auto simp: updateProjectorChildren_def split: sum.splits prod.splits)
  from settle_all[OF st] obtain cs where cs: "vs = map Some cs" "map fulfilled es = map Some cs"
    by blast
  from assms rc st cs have ar: "all_resolved projectorKey projector cs (st2, w1) = (Inr u, s')"
    by (simp add: updateProjectorChildren_def those_map_Some)
  then have pc: "projector_children (snd s') projector = Some (map widget cs)"
    by (auto simp: all_resolved_def Let_def split: option.splits prod.splits sum.splits)
  have len: "length cs = length ws"
    using cs(2) resolve_children_length[of registry ws s] rc
    by (metis fst_conv length_map)
  have "\<forall>i<length ws. fulfilled (fst (resolve_child registry (widget_id (ws ! i))
            (snd (resolve_children registry (take i ws) s)))) = Some (cs ! i)"
  proof (intro allI impI)
    fix i assume i: "i < length ws"
    have "fulfilled (es ! i) = Some (cs ! i)"
      using cs(2) i len by (metis length_map nth_map)
    with resolve_children_nth[OF i, of registry s] rc show
      "fulfilled (fst (resolve_child registry (widget_id (ws ! i))
          (snd (resolve_children registry (take i ws) s)))) = Some (cs ! i)" by simp
  qed
  with pc len show ?thesis by blast
qed


theorem children_in_requested_order_witness:
  "updateProjectorChildren factory (new_Counter ''.1'') \<lparr>key_ref = 0, key_value = ''.0''\<rparr> 1
       [SceneWidget ''X'', SceneWidget ''Y'', SceneWidget ''Z''] [2, 0, 1]
       (snd (projector_for (new_Counter []) (new_RenderState 5, initial_World)))
   = (Inr (), snd (updateProjectorChildren factory (new_Counter ''.1'') \<lparr>key_ref = 0, key_value = ''.0''\<rparr> 1
       [SceneWidget ''X'', SceneWidget ''Y'', SceneWidget ''Z''] [2, 0, 1]
       (snd (projector_for (new_Counter []) (new_RenderState 5, initial_World))))) \<and>
   projector_children (snd (snd (updateProjectorChildren factory (new_Counter ''.1'') \<lparr>key_ref = 0, key_value = ''.0''\<rparr> 1
       [SceneWidget ''X'', SceneWidget ''Y'', SceneWidget ''Z''] [2, 0, 1]
       (snd (projector_for (new_Counter []) (new_RenderState 5, initial_World)))))) 1 = Some [100, 101, 102]"
proof -
  let ?ws = "[SceneWidget ''X'', SceneWidget ''Y'', SceneWidget ''Z'']"
  let ?s = "snd (projector_for (new_Counter []) (new_RenderState 5, initial_World))"
  let ?r = "updateProjectorChildren factory (new_Counter ''.1'') \<lparr>key_ref = 0, key_value = ''.0''\<rparr> 1 ?ws [2, 0, 1] ?s"
  have f: "fst ?r = Inr ()"
    by (simp add: eval_defs)
  then have h: "?r = (Inr (), snd ?r)" by (metis prod.collapse)
  from children_in_requested_order[OF h] obtain cs where
    pc: "projector_children (snd (snd ?r)) 1 = Some (map widget cs)" and len: "length cs = 3" and
    a: "\<forall>i<3. fulfilled (fst (resolve_child factory (widget_id (?ws ! i))
                               (snd (resolve_children factory (take i ?ws) ?s)))) = Some (cs ! i)"
    by auto
  have "widget (cs ! 0) = 100"
    using a[rule_format, of 0, symmetric] by (simp add: eval_defs)
  moreover have "widget (cs ! 1) = 101"
    using a[rule_format, of 1, symmetric] by (simp add: eval_defs)
  moreover have "widget (cs ! 2) = 102"
    using a[rule_format, of 2, symmetric] by (simp add: eval_defs numeral_2_eq_2)
  ultimately have "map widget cs = [100, 101, 102]"
    using len by (simp add: list_eq_iff_nth_eq numeral_3_eq_3 numeral_2_eq_2 less_Suc_eq)
  with pc h show ?thesis by simp
qed


section \<open>Removal of children\<close>

text \<open>C1 (the code does not do this): with the factory registry, render a projector with
  children A and B, then with A only, then with A and B again. The second render destroys
  nothing: the trace holds no call of a widget's \<^verbatim>\<open>destroy\<close>, and B keeps its key, its widget
  101 and its handle. So the third render calls the registry for nothing and shows the
  old instance 101 of B, not a new one. No render in a well-formed world destroys
  anything (lemma \<^verbatim>\<open>render_destroys_nothing\<close>).\<close>

theorem removed_child_is_not_destroyed:
  "(let w1 = snd (render factory 5 (SceneProjector [SceneWidget ''A'', SceneWidget ''B'']) [] initial_World);
        w2 = snd (render factory 5 (SceneProjector [SceneWidget ''A'']) [] w1);
        w3 = snd (render factory 5 (SceneProjector [SceneWidget ''A'', SceneWidget ''B'']) [] w2)
    in trace w2 = [CreateProjector 1 5, GetWidget 7 ''A'', GetWidget 7 ''B'', Attach 1, Attach 1] \<and>
       projector_children w2 1 = Some [100] \<and>
       map_option (\<lambda>st. (widgetKeys st, widgets st 3, handles st 3)) (renderState w2 7) =
         Some ([(''A'', \<lparr>key_ref = 2, key_value = ''A''\<rparr>), (''B'', \<lparr>key_ref = 3, key_value = ''B''\<rparr>)],
               Some 101, Some (WidgetHandle 101 \<lparr>key_ref = 3, key_value = ''B''\<rparr>)) \<and>
       trace w3 = trace w2 @ [Attach 1] \<and> projector_children w3 1 = Some [100, 101])"
  by (simp add: eval_defs Let_def)

text \<open>C2 (the code does not do this): after the successful render of a projector with the
  child A, the entry of \<^verbatim>\<open>state.children\<close> for the projector's key (the object 0) is still
  the empty list stored when the projector was created, not the list holding A's key (the
  object 2): \<^verbatim>\<open>updateProjectorChildren\<close> never stores \<^verbatim>\<open>newKeys\<close>. The entry is empty after
  every render in a well-formed world (lemma \<^verbatim>\<open>children_entry_stays_empty\<close>).\<close>

theorem children_entry_is_never_updated:
  "fst (render factory 5 (SceneProjector [SceneWidget ''A'']) [] initial_World) = Inr (RenderHandle 7) \<and>
   map_option (\<lambda>st. (Map_get (projectorKeys st) ''.0'', Map_get (widgetKeys st) ''A'', children st 0))
     (renderState (snd (render factory 5 (SceneProjector [SceneWidget ''A'']) [] initial_World)) 7) =
   Some (Some \<lparr>key_ref = 0, key_value = ''.0''\<rparr>, Some \<lparr>key_ref = 2, key_value = ''A''\<rparr>, Some [])"
  by (simp add: eval_defs)

section \<open>Identity of widgets across renders\<close>

text \<open>C7 as stated fails for a tree that names an identifier twice: with the factory
  registry the first render of children A, A asks the registry twice and shows the
  instances 100 and 101; the second render shows 101 twice.\<close>

theorem identity_stability_counterexample:
  "(let w1 = snd (render factory 5 (SceneProjector [SceneWidget ''A'', SceneWidget ''A'']) [] initial_World);
        w2 = snd (render factory 5 (SceneProjector [SceneWidget ''A'', SceneWidget ''A'']) [] w1)
    in projector_children w1 1 = Some [100, 101] \<and> projector_children w2 1 = Some [101, 101] \<and>
       requests 7 (trace w2) = [''A'', ''A''])"
  by (simp add: eval_defs Let_def)

text \<open>C7, amended: in a well-formed world in which no resolution of the registry is pending,
  when a projector whose children are pairwise different has been rendered successfully,
  no resolution of the registry is pending afterwards; and rendering the same tree again,
  whatever resolutions of other registries have settled in between and whatever the
  order of settling, succeeds and changes nothing but for the second call of the
  projector's \<^verbatim>\<open>attach\<close>: the child collection, and so the instance of every identifier,
  is the same, and the registry is not asked again. In the first render the registry was
  asked at most once for each identifier of the tree.\<close>

theorem unchanged_tree_is_a_cache_hit:
  assumes wf: "wf_world w" and np: "no_pending registry w" and d: "distinct ws"
    and r1: "render registry r (SceneProjector ws) order1 w = (Inr h, w1)"
  shows "\<exists>p wl new.
           last (trace w1) = Attach p \<and> projector_children w1 p = Some wl \<and> length wl = length ws \<and>
           no_pending registry w1 \<and>
           (\<forall>ns. render registry r (SceneProjector ws) order2 (settle_later ns w1) =
                   (Inr h, (settle_later ns w1)\<lparr>trace := trace w1 @ [Attach p]\<rparr>) \<and>
                 projector_children (settle_later ns w1) p = Some wl) \<and>
           requests (registry_ref registry) (trace w1) = requests (registry_ref registry) (trace w) @ new \<and>
           distinct new \<and> set new \<subseteq> widget_id ` set ws"
  using state_for_wf[OF wf]
proof (cases rule: render_cases[where registry=registry and r=r and ws=ws and order=order1 and w=w])
  case (rejected pk p c1 st2 w2 es sta wa e i stb vs)
  with r1 show ?thesis by simp
next
  case (fulfilled pk p c1 st2 w2 es sta wa stb cs)
  let ?rid = "registry_ref registry"
  let ?w1 = "wa\<lparr>renderState := (renderState wa)(?rid \<mapsto> stb),
             projector_children := (projector_children wa)(p \<mapsto> map widget cs),
             trace := trace wa @ [Attach p]\<rparr>"
  from fulfilled(5) r1 have h: "h = RenderHandle ?rid" and w1: "w1 = ?w1" by simp_all
  note P = projector_for_wf[OF state_for_wf[OF wf] fulfilled(1)]
  note F = resolve_children_frame[OF fulfilled(2)]
  have SF: "widgetKeys stb = widgetKeys sta" "children stb = children sta"
    "projectors stb = projectors sta" "projectorKeys stb = projectorKeys sta"
    using settle_frame[of es "order1 @ [0..<length es]" sta "map ready es"] fulfilled(3) by simp_all
  have len: "length es = length ws"
    using resolve_children_length[of registry ws "(st2, w2)"] fulfilled(2) by simp
  have lcs: "length cs = length ws"
    using fulfilled(4) len by (metis length_map)
  have fu: "\<And>i. i < length ws \<Longrightarrow> fulfilled (es ! i) = Some (cs ! i)"
    using fulfilled(4) len lcs by (metis length_map nth_map)
  have keys: "\<And>i. i < length ws \<Longrightarrow> Map_get (widgetKeys sta) (widget_id (ws ! i)) = Some (key (cs ! i))"
    using resolve_children_keys[OF fulfilled(2)] fulfilled_key[OF fu] by simp
  have wfa: "wf_state (fresh wa) sta" using resolve_children_wf[OF fulfilled(2) P(1)] .
  have dist: "distinct (map (key_ref \<circ> entry_key) es)"
    unfolding distinct_conv_nth
  proof (intro allI impI)
    fix i j assume i: "i < length (map (key_ref \<circ> entry_key) es)"
      and j: "j < length (map (key_ref \<circ> entry_key) es)" and ij: "i \<noteq> j"
    show "map (key_ref \<circ> entry_key) es ! i \<noteq> map (key_ref \<circ> entry_key) es ! j"
    proof
      assume a: "map (key_ref \<circ> entry_key) es ! i = map (key_ref \<circ> entry_key) es ! j"
      from i j len have i': "i < length ws" and j': "j < length ws" by simp_all
      from a i j have "key_ref (entry_key (es ! i)) = key_ref (entry_key (es ! j))" by simp
      then have "key_ref (key (cs ! i)) = key_ref (key (cs ! j))"
        using fulfilled_key[OF fu[OF i']] fulfilled_key[OF fu[OF j']] by simp
      then have "widget_id (ws ! i) = widget_id (ws ! j)"
        by (rule wf_stateD(2)[OF wfa keys[OF i'] keys[OF j']])
      then have "ws ! i = ws ! j" by (simp add: SceneWidget.expand)
      with d i j len ij show False by (simp add: nth_eq_iff_index_eq)
    qed
  qed
  have rec0: "recorded es sta (map ready es)"
    unfolding recorded_def
  proof (intro allI impI)
    fix i c assume i: "i < length (map ready es)" and v: "map ready es ! i = Some c"
    then have e: "es ! i = Ready c" by (cases "es ! i") auto
    from resolve_children_shape[OF fulfilled(2), of i] i len e F
    have "widgets sta (key_ref (key c)) = Some (widget c)" by simp
    with e show "widgets sta (key_ref (key c)) = Some (widget c) \<and>
        (ready (es ! i) = None \<longrightarrow>
           handles sta (key_ref (key c)) = Some (WidgetHandle (widget c) (key c)))" by simp
  qed
  from settle_recorded[OF dist fulfilled(3) consistent_ready rec0]
  have rec: "\<And>i. i < length ws \<Longrightarrow> widgets stb (key_ref (key (cs ! i))) = Some (widget (cs ! i))"
    by (simp add: recorded_def lcs)
  have np1: "no_pending registry ?w1" using np P(10) F by (simp add: no_pending_def)
  have hit: "render registry r (SceneProjector ws) order2 (settle_later ns ?w1) =
       (Inr (RenderHandle ?rid), (settle_later ns ?w1)\<lparr>trace := trace ?w1 @ [Attach p]\<rparr>) \<and>
     projector_children (settle_later ns ?w1) p = Some (map widget cs)" for ns
  proof -
    let ?w = "settle_later ns ?w1"
    note L = settle_later_other[OF np1, of ns]
    have pc: "projector_children ?w = (projector_children wa)(p \<mapsto> map widget cs)" using L by simp
    have "render registry r (SceneProjector ws) order2 ?w =
     (Inr (RenderHandle ?rid),
      ?w\<lparr>projector_children := (projector_children ?w)(p \<mapsto> map widget cs),
          trace := trace ?w @ [Attach p]\<rparr>)"
    proof (rule render_cache_hit[where st=stb and pk=pk])
      show "renderState ?w ?rid = Some stb" using L by simp
      show "Map_get (projectorKeys stb) ''.0'' = Some pk" using P(4) F SF by simp
      show "projectors stb (key_ref pk) = Some p" using P(3) F SF by simp
      show "children stb (key_ref pk) = Some []" using P(2) F SF by simp
      show "length cs = length ws" by (rule lcs)
      show "\<forall>i<length ws. Map_get (widgetKeys stb) (widget_id (ws ! i)) = Some (key (cs ! i)) \<and>
          widgets stb (key_ref (key (cs ! i))) = Some (widget (cs ! i))"
        using keys rec SF by simp
    qed
    moreover have "(projector_children ?w)(p \<mapsto> map widget cs) = projector_children ?w"
      unfolding pc by simp
    moreover have "trace ?w = trace ?w1" using L by simp
    ultimately show ?thesis using pc by simp
  qed
  from resolve_children_trace[OF fulfilled(2)] obtain new where
    new: "trace wa = trace w2 @ map (GetWidget ?rid) new"
      "\<forall>v. count_list new v \<le> count_list (map widget_id ws) v" by blast
  have "requests ?rid (trace w2) = requests ?rid (trace w)"
    using P(12) by (auto simp: requests_append)
  with new(1) have req: "requests ?rid (trace ?w1) = requests ?rid (trace w) @ new"
    by (simp add: requests_append requests_GetWidget)
  have "distinct (map widget_id ws)"
    using d by (simp add: distinct_map inj_on_def SceneWidget.expand)
  with new(2) have dn: "distinct new"
    by (meson count_le_1_distinct distinct_count_le_1 le_trans)
  have sub: "set new \<subseteq> widget_id ` set ws"
  proof
    fix v assume "v \<in> set new"
    then have "count_list new v > 0" by (metis count_list_0_iff gr0I)
    with new(2) have "count_list (map widget_id ws) v > 0" by (meson less_le_trans)
    then show "v \<in> widget_id ` set ws" by (metis count_list_0_iff less_irrefl list.set_map)
  qed
  have "last (trace ?w1) = Attach p \<and> projector_children ?w1 p = Some (map widget cs) \<and>
        length (map widget cs) = length ws \<and> no_pending registry ?w1 \<and>
        (\<forall>ns. render registry r (SceneProjector ws) order2 (settle_later ns ?w1) =
                (Inr h, (settle_later ns ?w1)\<lparr>trace := trace ?w1 @ [Attach p]\<rparr>) \<and>
              projector_children (settle_later ns ?w1) p = Some (map widget cs)) \<and>
        requests ?rid (trace ?w1) = requests ?rid (trace w) @ new \<and> distinct new \<and>
        set new \<subseteq> widget_id ` set ws"
    using hit req dn sub lcs h np1 by simp
  then show ?thesis unfolding w1 by blast
qed

theorem unchanged_tree_is_a_cache_hit_witness:
  "(let T = SceneProjector [SceneWidget ''A'', SceneWidget ''B''];
        w0 = snd (render selective 5 T [1] initial_World);
        w1 = snd (render factory 5 T [1, 0] w0)
    in wf_world w0 \<and> no_pending factory w0 \<and> distinct [SceneWidget ''A'', SceneWidget ''B''] \<and>
       render factory 5 T [1, 0] w0 = (Inr (RenderHandle 7), w1) \<and>
       length (outstanding w1) = 1 \<and>
       (\<exists>p wl.
           last (trace w1) = Attach p \<and> projector_children w1 p = Some wl \<and> length wl = 2 \<and>
           render factory 5 T [0, 1] (settle_later [0] w1) =
             (Inr (RenderHandle 7), (settle_later [0] w1)\<lparr>trace := trace w1 @ [Attach p]\<rparr>) \<and>
           projector_children (settle_later [0] w1) p = Some wl))"
proof -
  let ?T = "SceneProjector [SceneWidget ''A'', SceneWidget ''B'']"
  let ?w0 = "snd (render selective 5 ?T [1] initial_World)"
  let ?w1 = "snd (render factory 5 ?T [1, 0] ?w0)"
  have wf0: "wf_world ?w0" by (rule render_wf[OF wf_initial_World])
  have o0: "outstanding ?w0 = [(9, \<lparr>key_ref = 2, key_value = ''A''\<rparr>, Inr 100)]"
    by (simp add: eval_defs selective_def)
  then have np: "no_pending factory ?w0" by (simp add: no_pending_def factory_def)
  have "fst (render factory 5 ?T [1, 0] ?w0) = Inr (RenderHandle 7)"
    by (simp add: eval_defs selective_def)
  then have r: "render factory 5 ?T [1, 0] ?w0 = (Inr (RenderHandle 7), ?w1)"
    by (metis prod.collapse)
  have o1: "length (outstanding ?w1) = 1" by (simp add: eval_defs selective_def)
  have d: "distinct [SceneWidget ''A'', SceneWidget ''B'']" by simp
  have f: "registry_ref factory = 7" by (simp add: factory_def)
  from unchanged_tree_is_a_cache_hit[OF wf0 np d r, of "[0, 1]"] obtain p wl where
    a: "last (trace ?w1) = Attach p" "projector_children ?w1 p = Some wl" "length wl = 2"
    and b: "\<forall>ns. render factory 5 ?T [0, 1] (settle_later ns ?w1) =
                   (Inr (RenderHandle 7), (settle_later ns ?w1)\<lparr>trace := trace ?w1 @ [Attach p]\<rparr>) \<and>
                 projector_children (settle_later ns ?w1) p = Some wl"
    by auto
  from a b[rule_format, of "[0]"] wf0 np d r o1 show ?thesis unfolding Let_def by blast
qed

section \<open>Duplicate identifiers\<close>

text \<open>C3 as stated fails: with the factory registry, the first render of a projector with the
  children A, A calls the registry twice for A, and the child collection holds two
  different instances, 100 and 101.\<close>

theorem duplicate_identifier_counterexample:
  "requests 7 (trace (snd (render factory 5 (SceneProjector [SceneWidget ''A'', SceneWidget ''A'']) [] initial_World)))
     = [''A'', ''A''] \<and>
   projector_children (snd (render factory 5 (SceneProjector [SceneWidget ''A'', SceneWidget ''A'']) [] initial_World)) 1
     = Some [100, 101]"
  by (simp add: eval_defs)

text \<open>C3, amended: in a well-formed world, a render of a projector asks the registry for an
  identifier that has no cached instance once for each occurrence of the identifier among
  the requested widgets, whether the render succeeds or not. When the render succeeds, the child
  collection holds at each of these occurrences the instance that the registry returned
  to the call made for this occurrence: the same instance at two of them only when the
  registry returned it twice. And the render succeeds whenever the registry fulfils every
  call that the render makes.\<close>

theorem requested_once_per_occurrence:
  assumes wf: "wf_world w" and u: "uncached (state_for registry r w) v"
  shows "count_list (requests (registry_ref registry)
             (trace (snd (render registry r (SceneProjector ws) order w)))) v =
           count_list (requests (registry_ref registry) (trace w)) v + count_list ws (SceneWidget v) \<and>
         (\<forall>h w'. render registry r (SceneProjector ws) order w = (Inr h, w') \<longrightarrow>
            (\<exists>p wl. last (trace w') = Attach p \<and> projector_children w' p = Some wl \<and>
               length wl = length ws \<and>
               (\<forall>i<length ws. ws ! i = SceneWidget v \<longrightarrow>
                  getWidget registry
                    (requests (registry_ref registry) (trace w) @ asked_before (state_for registry r w) ws i) v =
                  Inr (wl ! i)))) \<and>
         ((\<forall>i<length ws. uncached (state_for registry r w) (widget_id (ws ! i)) \<longrightarrow>
             \<not> isl (getWidget registry
               (requests (registry_ref registry) (trace w) @ asked_before (state_for registry r w) ws i)
               (widget_id (ws ! i)))) \<longrightarrow>
          (\<exists>w'. render registry r (SceneProjector ws) order w =
                   (Inr (RenderHandle (registry_ref registry)), w')))"
proof (intro conjI allI impI)
  show "count_list (requests (registry_ref registry)
             (trace (snd (render registry r (SceneProjector ws) order w)))) v =
           count_list (requests (registry_ref registry) (trace w)) v + count_list ws (SceneWidget v)"
    by (rule render_requests_uncached[OF wf u])
next
  fix h w'
  assume ok: "render registry r (SceneProjector ws) order w = (Inr h, w')"
  from render_children[OF wf ok] obtain p wl where
    a: "last (trace w') = Attach p" "projector_children w' p = Some wl" "length wl = length ws" and
    b: "\<forall>i<length ws.
              if uncached (state_for registry r w) (widget_id (ws ! i))
              then getWidget registry
                     (requests (registry_ref registry) (trace w) @ asked_before (state_for registry r w) ws i)
                     (widget_id (ws ! i)) = Inr (wl ! i)
              else \<exists>k. Map_get (widgetKeys (state_for registry r w)) (widget_id (ws ! i)) = Some k \<and>
                     widgets (state_for registry r w) (key_ref k) = Some (wl ! i)"
    by blast
  have "\<forall>i<length ws. ws ! i = SceneWidget v \<longrightarrow>
          getWidget registry
            (requests (registry_ref registry) (trace w) @ asked_before (state_for registry r w) ws i) v =
          Inr (wl ! i)"
  proof (intro allI impI)
    fix i assume "i < length ws" "ws ! i = SceneWidget v"
    with b[rule_format, of i] u show "getWidget registry
            (requests (registry_ref registry) (trace w) @ asked_before (state_for registry r w) ws i) v =
          Inr (wl ! i)" by simp
  qed
  with a show "\<exists>p wl. last (trace w') = Attach p \<and> projector_children w' p = Some wl \<and>
               length wl = length ws \<and>
               (\<forall>i<length ws. ws ! i = SceneWidget v \<longrightarrow>
                  getWidget registry
                    (requests (registry_ref registry) (trace w) @ asked_before (state_for registry r w) ws i) v =
                  Inr (wl ! i))" by blast
next
  assume "\<forall>i<length ws. uncached (state_for registry r w) (widget_id (ws ! i)) \<longrightarrow>
             \<not> isl (getWidget registry
               (requests (registry_ref registry) (trace w) @ asked_before (state_for registry r w) ws i)
               (widget_id (ws ! i)))"
  then show "\<exists>w'. render registry r (SceneProjector ws) order w =
                   (Inr (RenderHandle (registry_ref registry)), w')"
    by (rule render_succeeds[OF wf])
qed

theorem requested_once_per_occurrence_witness:
  "wf_world initial_World \<and> uncached (state_for factory 5 initial_World) ''A'' \<and>
   count_list (requests 7 (trace (snd (render factory 5
      (SceneProjector [SceneWidget ''A'', SceneWidget ''A'']) [1] initial_World)))) ''A'' = 2 \<and>
   (\<exists>w' p. render factory 5 (SceneProjector [SceneWidget ''A'', SceneWidget ''A'']) [1] initial_World =
               (Inr (RenderHandle 7), w') \<and>
            last (trace w') = Attach p \<and> projector_children w' p = Some [100, 101])"
proof -
  let ?ws = "[SceneWidget ''A'', SceneWidget ''A'']"
  have f: "registry_ref factory = 7" by (simp add: factory_def)
  have u: "uncached (state_for factory 5 initial_World) ''A''"
    by (simp add: uncached_def state_for_def initial_World_def new_RenderState_def)
  note T = requested_once_per_occurrence[OF wf_initial_World u, of ?ws "[1]"]
  from T have c: "count_list (requests 7 (trace (snd (render factory 5 (SceneProjector ?ws) [1] initial_World)))) ''A'' = 2"
    by (simp add: f initial_World_def)
  have "\<forall>i<length ?ws. uncached (state_for factory 5 initial_World) (widget_id (?ws ! i)) \<longrightarrow>
             \<not> isl (getWidget factory
               (requests (registry_ref factory) (trace initial_World) @ asked_before (state_for factory 5 initial_World) ?ws i)
               (widget_id (?ws ! i)))"
    by (simp add: factory_def)
  with T obtain w' where r: "render factory 5 (SceneProjector ?ws) [1] initial_World = (Inr (RenderHandle 7), w')"
    unfolding f by blast
  with T obtain p wl where a: "last (trace w') = Attach p" "projector_children w' p = Some wl"
    "length wl = length ?ws" and
    b: "\<forall>i<length ?ws. ?ws ! i = SceneWidget ''A'' \<longrightarrow>
          getWidget factory
            (requests (registry_ref factory) (trace initial_World) @ asked_before (state_for factory 5 initial_World) ?ws i) ''A'' =
          Inr (wl ! i)"
    by blast
  from b[rule_format, of 0] b[rule_format, of 1] u have "wl ! 0 = 100" "wl ! 1 = 101"
    by (simp_all add: factory_def initial_World_def asked_before_def)
  with a(3) have "wl = [100, 101]"
    by (cases wl; cases "tl wl") auto
  with a r c wf_initial_World u show ?thesis by blast
qed

section \<open>Failed resolutions\<close>






section \<open>Teardown\<close>

text \<open>C8 (the code does not do this): with the factory registry, after the successful render
  of a projector with the children A and B, the handle's \<^verbatim>\<open>destroy\<close> calls \<^verbatim>\<open>destroy\<close> of A's
  widget 100 and of B's widget 101, once each, and makes no other call: the projector 1 is
  never destroyed. The projector's handle (lines 118-122) only deletes the projector's
  key, where a widget's handle (lines 156-161) destroys its widget first.\<close>

theorem teardown_leaves_projector:
  "(let w1 = snd (render factory 5 (SceneProjector [SceneWidget ''A'', SceneWidget ''B'']) [] initial_World);
        w2 = destroy_RenderHandle (RenderHandle 7) w1
    in fst (render factory 5 (SceneProjector [SceneWidget ''A'', SceneWidget ''B'']) [] initial_World) = Inr (RenderHandle 7) \<and>
       trace w2 = [CreateProjector 1 5, GetWidget 7 ''A'', GetWidget 7 ''B'', Attach 1, WidgetDestroy 100, WidgetDestroy 101] \<and>
       ProjectorDestroy 1 \<notin> set (trace w2))"
  by (simp add: eval_defs Let_def)

text \<open>The same for every registry that has not rendered before and two different identifiers
  a and b: after a successful render of a projector with the children a and b, the
  handle's \<^verbatim>\<open>destroy\<close> calls \<^verbatim>\<open>destroy\<close> of a's instance and then of b's instance, and calls
  nothing else; it leaves \<^verbatim>\<open>projectorKeys\<close> and \<^verbatim>\<open>widgetKeys\<close> empty.\<close>

theorem teardown_destroys_widgets_only:
  assumes new: "renderState w (registry_ref registry) = None" and ab: "a \<noteq> b"
    and ok: "render registry r (SceneProjector [SceneWidget a, SceneWidget b]) order w = (Inr h, w1)"
  shows "\<exists>wa wb p st.
     getWidget registry (requests (registry_ref registry) (trace w)) a = Inr wa \<and>
     getWidget registry (requests (registry_ref registry) (trace w) @ [a]) b = Inr wb \<and>
     last (trace w1) = Attach p \<and> projector_children w1 p = Some [wa, wb] \<and>
     trace (destroy_RenderHandle h w1) = trace w1 @ [WidgetDestroy wa, WidgetDestroy wb] \<and>
     renderState (destroy_RenderHandle h w1) (registry_ref registry) = Some st \<and>
     projectorKeys st = [] \<and> widgetKeys st = []"
proof -
  let ?rid = "registry_ref registry"
  let ?ws = "[SceneWidget a, SceneWidget b]"
  let ?pk = "\<lparr>key_ref = fresh w, key_value = ''.0''\<rparr>"
  let ?ka = "\<lparr>key_ref = Suc (Suc (fresh w)), key_value = a\<rparr>"
  let ?kb = "\<lparr>key_ref = Suc (Suc (Suc (fresh w))), key_value = b\<rparr>"
  let ?oa = "getWidget registry (requests ?rid (trace w)) a"
  let ?ob = "getWidget registry (requests ?rid (trace w) @ [a]) b"
  have sf: "state_for registry r w = new_RenderState r" using new by (simp add: state_for_def)
  have wf0: "wf_state (fresh w) (state_for registry r w)" unfolding sf by (rule wf_new_RenderState)
  from wf0 show ?thesis
  proof (cases rule: render_cases[where registry=registry and r=r and ws="?ws" and order=order and w=w])
    case (rejected pk p c1 st2 w2 es sta wa e i stb vs)
    with ok show ?thesis by simp
  next
    case (fulfilled pk p c1 st2 w2 es sta wa stb cs)
    from fulfilled(1) have pf: "pk = ?pk" "p = Suc (fresh w)"
      "st2 = (new_RenderState r)\<lparr>projectorKeys := [(''.0'', ?pk)],
              projectors := [fresh w \<mapsto> Suc (fresh w)], children := [fresh w \<mapsto> []],
              handles := [fresh w \<mapsto> ProjectorHandle ?pk]\<rparr>"
      "w2 = w\<lparr>fresh := Suc (Suc (fresh w)), trace := trace w @ [CreateProjector (Suc (fresh w)) r]\<rparr>"
      unfolding sf
      by (auto simp: projector_for_def incr_new_Counter new_Key_def Map_has_def createProjector_def
          new_RenderState_def)
    from fulfilled(2) ab have rc: "es = [Promised ?ka ?oa, Promised ?kb ?ob]"
      "widgetKeys sta = [(a, ?ka), (b, ?kb)]" "projectorKeys sta = [(''.0'', ?pk)]"
      "handles sta (fresh w) = Some (ProjectorHandle ?pk)"
      unfolding pf
      by (auto simp: resolve_child_def new_Key_def Map_has_def new_RenderState_def requests_append)
    from fulfilled(4) rc(1) obtain xa xb where o: "?oa = Inr xa" "?ob = Inr xb"
      and cs: "cs = [\<lparr>key = ?ka, widget = xa\<rparr>, \<lparr>key = ?kb, widget = xb\<rparr>]"
      by (cases ?oa; cases ?ob; auto)
    have stb: "stb = settled_state (settle es (order @ [0..<length es]) (sta, map ready es))"
      using fulfilled(3) by simp
    have SF: "widgetKeys stb = widgetKeys sta" "projectorKeys stb = projectorKeys sta"
      unfolding stb using settle_frame[of es "order @ [0..<length es]" sta "map ready es"] by simp_all
    have hp: "handles stb (fresh w) = Some (ProjectorHandle ?pk)"
      unfolding stb using settle_handles_other[of es "fresh w" "order @ [0..<length es]" sta "map ready es"] rc(4)
      by (simp add: rc(1) less_Suc_eq numeral_2_eq_2)
    have dist: "distinct (map (key_ref \<circ> entry_key) es)" by (simp add: rc(1))
    have rec0: "recorded es sta (map ready es)" by (simp add: recorded_def rc(1) less_Suc_eq)
    from settle_recorded[OF dist fulfilled(3) consistent_ready rec0]
    have ha: "handles stb (Suc (Suc (fresh w))) = Some (WidgetHandle xa ?ka)"
      and hb: "handles stb (Suc (Suc (Suc (fresh w)))) = Some (WidgetHandle xb ?kb)"
      by (simp_all add: recorded_def cs rc(1) less_Suc_eq)
    from fulfilled(5) ok have h: "h = RenderHandle ?rid"
      and w1: "w1 = wa\<lparr>renderState := (renderState wa)(?rid \<mapsto> stb),
             projector_children := (projector_children wa)(p \<mapsto> map widget cs),
             trace := trace wa @ [Attach p]\<rparr>" by simp_all
    have d: "trace (destroy_RenderHandle h w1) = trace w1 @ [WidgetDestroy xa, WidgetDestroy xb] \<and>
      (\<exists>st. renderState (destroy_RenderHandle h w1) ?rid = Some st \<and> projectorKeys st = [] \<and> widgetKeys st = [])"
      unfolding h w1 using ab hp ha hb
      by (simp add: destroy_RenderHandle_def invoke_handle_def SF rc(2,3))
    have "last (trace w1) = Attach p \<and> projector_children w1 p = Some [xa, xb]"
      by (simp add: w1 cs)
    with o d show ?thesis by blast
  qed
qed

theorem teardown_destroys_widgets_only_witness:
  "(let w1 = snd (render factory 5 (SceneProjector [SceneWidget ''A'', SceneWidget ''B'']) [1, 0] initial_World)
    in renderState initial_World 7 = None \<and> ''A'' \<noteq> ''B'' \<and>
       render factory 5 (SceneProjector [SceneWidget ''A'', SceneWidget ''B'']) [1, 0] initial_World =
         (Inr (RenderHandle 7), w1) \<and>
       (\<exists>p st. last (trace w1) = Attach p \<and> projector_children w1 p = Some [100, 101] \<and>
          trace (destroy_RenderHandle (RenderHandle 7) w1) = trace w1 @ [WidgetDestroy 100, WidgetDestroy 101] \<and>
          renderState (destroy_RenderHandle (RenderHandle 7) w1) 7 = Some st \<and>
          projectorKeys st = [] \<and> widgetKeys st = []))"
proof -
  let ?T = "SceneProjector [SceneWidget ''A'', SceneWidget ''B'']"
  let ?w1 = "snd (render factory 5 ?T [1, 0] initial_World)"
  have "fst (render factory 5 ?T [1, 0] initial_World) = Inr (RenderHandle 7)"
    by (simp add: eval_defs)
  then have r: "render factory 5 ?T [1, 0] initial_World = (Inr (RenderHandle 7), ?w1)"
    by (metis prod.collapse)
  have f: "registry_ref factory = 7" by (simp add: factory_def)
  have n: "renderState initial_World (registry_ref factory) = None" by (simp add: initial_World_def)
  have ne: "''A'' \<noteq> ''B''" by simp
  have g: "getWidget factory (requests 7 (trace initial_World)) ''A'' = Inr 100"
    "getWidget factory (requests 7 (trace initial_World) @ [''A'']) ''B'' = Inr 101"
    by (simp_all add: factory_def initial_World_def)
  from teardown_destroys_widgets_only[OF n ne r] g n r
  show ?thesis unfolding f Let_def by fastforce
qed

text \<open>C9: when a key's handle is a widget's handle, invoking it through the \<^verbatim>\<open>handles\<close> map
  calls the widget's \<^verbatim>\<open>destroy\<close> and deletes the entry of \<^verbatim>\<open>widgetKeys\<close> with the key's
  value; \<^verbatim>\<open>handles\<close>, \<^verbatim>\<open>widgets\<close> and the other maps are left as they were. So the handle
  can be invoked through the map again, and then the widget's \<^verbatim>\<open>destroy\<close> has been called
  twice.\<close>

theorem widget_handle_destroys_twice:
  assumes "handles st (key_ref k) = Some (WidgetHandle wd k)"
  shows "(case invoke_handle k (st, w) of (res1, (st1, w1)) \<Rightarrow>
            res1 = Inr () \<and> trace w1 = trace w @ [WidgetDestroy wd] \<and>
            widgetKeys st1 = Map_delete (key_value k) (widgetKeys st) \<and>
            handles st1 = handles st \<and> widgets st1 = widgets st \<and> children st1 = children st \<and>
            projectors st1 = projectors st \<and> projectorKeys st1 = projectorKeys st \<and>
            (case invoke_handle k (st1, w1) of (res2, (st2, w2)) \<Rightarrow>
               res2 = Inr () \<and> trace w2 = trace w @ [WidgetDestroy wd, WidgetDestroy wd]))"
  using assms by (simp add: invoke_handle_def)

theorem widget_handle_destroys_twice_witness:
  "(let w1 = snd (render factory 5 (SceneProjector [SceneWidget ''A'']) [] initial_World);
        k = \<lparr>key_ref = 2, key_value = ''A''\<rparr>
    in \<exists>st. renderState w1 7 = Some st \<and> handles st (key_ref k) = Some (WidgetHandle 100 k) \<and>
         (case invoke_handle k (st, w1) of (res1, (st1, w2)) \<Rightarrow>
            res1 = Inr () \<and> trace w2 = trace w1 @ [WidgetDestroy 100] \<and>
            widgetKeys st1 = [] \<and> handles st1 = handles st \<and> widgets st1 = widgets st \<and>
            (case invoke_handle k (st1, w2) of (res2, (st2, w3)) \<Rightarrow>
               res2 = Inr () \<and> trace w3 = trace w1 @ [WidgetDestroy 100, WidgetDestroy 100])))"
proof -
  let ?w1 = "snd (render factory 5 (SceneProjector [SceneWidget ''A'']) [] initial_World)"
  let ?k = "\<lparr>key_ref = 2, key_value = ''A''\<rparr>"
  obtain st where st: "renderState ?w1 7 = Some st" "handles st (key_ref ?k) = Some (WidgetHandle 100 ?k)"
    "widgetKeys st = [(''A'', ?k)]"
    by (simp add: eval_defs)
  from widget_handle_destroys_twice[OF st(2), of ?w1] st
  show ?thesis unfolding Let_def by (auto split: prod.splits)
qed

end
